theory Spec2Isabelle
  imports Main "HOL-Library.Word"
begin

section \<open>Data model\<close>

text \<open>
  \<^verbatim>\<open>struct order { uint64_t id; int64_t price; int64_t amount; }\<close> is declared
  identically by both book classes. Identifiers are only ever compared for equality, so
  they are 64-bit words. Prices and amounts are only ever compared (\<open>==\<close>, \<open><\<close>, \<open>>\<close>),
  never added or negated, so no wrap-around can occur and they are read as the integers
  they denote.
\<close>

type_synonym ident = "64 word"

record order =
  oid :: ident
  price :: int
  amount :: int

text \<open>\<^verbatim>\<open>static bool is_bid(int64_t amount) { return amount > 0; }\<close>\<close>

definition is_bid :: "int \<Rightarrow> bool" where
  "is_bid a = (a > 0)"

text \<open>The calls a client can make on either book.\<close>

datatype op = Place order | Modify order | Cancel ident

section \<open>The ordered-map book: \<open>base_book_map\<close>\<close>

text \<open>
  A \<^verbatim>\<open>std::map<int64_t, uint64_t, Compare>\<close> is the sequence of its entries in
  iteration order. \<open>emplace\<close> walks to the position of the key under the comparator and
  inserts there, unless an entry with an equivalent key is already present, in which case
  it does nothing.
\<close>

type_synonym book = "(int \<times> ident) list"

fun emplace :: "(int \<Rightarrow> int \<Rightarrow> bool) \<Rightarrow> book \<Rightarrow> int \<Rightarrow> ident \<Rightarrow> book" where
  "emplace cmp [] k v = [(k, v)]"
| "emplace cmp ((k', v') # rest) k v =
     (if cmp k' k then (k', v') # emplace cmp rest k v
      else if cmp k k' then (k, v) # (k', v') # rest
      else (k', v') # rest)"

text \<open>
  The loop of \<open>remove_from_book\<close>: over the entries of \<open>equal_range(price)\<close>, erase the
  first one whose mapped id is the given one. \<open>None\<close> is the \<^verbatim>\<open>return false\<close> after the
  loop, which leaves the map untouched.
\<close>

fun erase_in_range :: "(int \<Rightarrow> int \<Rightarrow> bool) \<Rightarrow> book \<Rightarrow> int \<Rightarrow> ident \<Rightarrow> book option" where
  "erase_in_range cmp [] k i = None"
| "erase_in_range cmp ((k', v') # rest) k i =
     (if cmp k' k then map_option (Cons (k', v')) (erase_in_range cmp rest k i)
      else if cmp k k' then None
      else if v' = i then Some rest
      else map_option (Cons (k', v')) (erase_in_range cmp rest k i))"

record mbook =
  m_orders :: "ident \<rightharpoonup> order"
  m_bids :: book
  m_asks :: book

definition map_empty :: mbook where
  "map_empty = \<lparr>m_orders = Map.empty, m_bids = [], m_asks = []\<rparr>"

text \<open>\<open>bid_book\<close> is ordered by \<^verbatim>\<open>std::greater\<close>, \<open>ask_book\<close> by \<^verbatim>\<open>std::less\<close>.\<close>

definition bid_comp :: "int \<Rightarrow> int \<Rightarrow> bool" where
  "bid_comp a b = (a > b)"

definition ask_comp :: "int \<Rightarrow> int \<Rightarrow> bool" where
  "ask_comp a b = (a < b)"

definition add_to_book :: "mbook \<Rightarrow> order \<Rightarrow> bool \<times> mbook" where
  "add_to_book s v =
     (if is_bid (amount v)
      then (True, s\<lparr>m_bids := emplace bid_comp (m_bids s) (price v) (oid v)\<rparr>)
      else (True, s\<lparr>m_asks := emplace ask_comp (m_asks s) (price v) (oid v)\<rparr>))"

definition remove_from_book :: "mbook \<Rightarrow> order \<Rightarrow> bool \<times> mbook" where
  "remove_from_book s v =
     (if is_bid (amount v)
      then (case erase_in_range bid_comp (m_bids s) (price v) (oid v) of
              Some b \<Rightarrow> (True, s\<lparr>m_bids := b\<rparr>)
            | None \<Rightarrow> (False, s))
      else (case erase_in_range ask_comp (m_asks s) (price v) (oid v) of
              Some b \<Rightarrow> (True, s\<lparr>m_asks := b\<rparr>)
            | None \<Rightarrow> (False, s)))"

definition map_place :: "mbook \<Rightarrow> order \<Rightarrow> bool \<times> mbook" where
  "map_place s v =
     (if amount v = 0 \<or> m_orders s (oid v) \<noteq> None then (False, s)
      else
        let s1 = s\<lparr>m_orders := (m_orders s)(oid v \<mapsto> v)\<rparr>;
            (ok, s2) = add_to_book s1 v
        in if \<not> ok then (False, s2\<lparr>m_orders := (m_orders s2)(oid v := None)\<rparr>)
           else (True, s2))"

definition map_cancel :: "mbook \<Rightarrow> ident \<Rightarrow> bool \<times> mbook" where
  "map_cancel s i =
     (case m_orders s i of
        None \<Rightarrow> (False, s)
      | Some v \<Rightarrow>
          let (ok, s1) = remove_from_book s v
          in if \<not> ok then (False, s1)
             else (True, s1\<lparr>m_orders := (m_orders s1)(i := None)\<rparr>))"

definition map_modify :: "mbook \<Rightarrow> order \<Rightarrow> bool \<times> mbook" where
  "map_modify s v =
     (if amount v = 0 then map_cancel s (oid v)
      else case m_orders s (oid v) of
        None \<Rightarrow> (False, s)
      | Some previous \<Rightarrow>
          if is_bid (amount previous) = is_bid (amount v) \<and> price previous = price v
          then (True, s\<lparr>m_orders := (m_orders s)(oid v \<mapsto> v)\<rparr>)
          else
            let (ok, s1) = remove_from_book s previous
            in if \<not> ok then (False, s1)
               else
                 let s2 = s1\<lparr>m_orders := (m_orders s1)(oid v \<mapsto> v)\<rparr>;
                     (ok2, s3) = add_to_book s2 v
                 in if \<not> ok2
                    then (let s4 = s3\<lparr>m_orders := (m_orders s3)(oid v \<mapsto> previous)\<rparr>
                          in (False, snd (add_to_book s4 previous)))
                    else (True, s3))"

definition best_from_book :: "(ident \<rightharpoonup> order) \<Rightarrow> book \<Rightarrow> order option" where
  "best_from_book os b =
     (case b of [] \<Rightarrow> None | (k, i) # rest \<Rightarrow> os i)"

definition map_best_bid :: "mbook \<Rightarrow> order option" where
  "map_best_bid s = best_from_book (m_orders s) (m_bids s)"

definition map_best_ask :: "mbook \<Rightarrow> order option" where
  "map_best_ask s = best_from_book (m_orders s) (m_asks s)"

fun map_step :: "mbook \<Rightarrow> op \<Rightarrow> mbook" where
  "map_step s (Place v) = snd (map_place s v)"
| "map_step s (Modify v) = snd (map_modify s v)"
| "map_step s (Cancel i) = snd (map_cancel s i)"

definition map_run :: "mbook \<Rightarrow> op list \<Rightarrow> mbook" where
  "map_run s ops = foldl map_step s ops"

section \<open>The sorted-bucket book: \<open>base_book_vector\<close>\<close>

record price_level =
  level_price :: int
  ids :: "ident list"

text \<open>
  \<^verbatim>\<open>std::lower_bound(first, last, value, cmp)\<close> returns the first position whose
  element does not satisfy \<open>cmp(element, value)\<close>; positions are indices, and
  \<open>length xs\<close> is \<open>end()\<close>. On the ranges partitioned by \<open>cmp\<close>, the only ones the
  standard defines it for, that is the length of the longest prefix satisfying \<open>cmp\<close>.
\<close>

definition lower_bound :: "('a \<Rightarrow> 'b \<Rightarrow> bool) \<Rightarrow> 'a list \<Rightarrow> 'b \<Rightarrow> nat" where
  "lower_bound cmp xs v = length (takeWhile (\<lambda>x. cmp x v) xs)"

definition find_bid_insert :: "price_level list \<Rightarrow> int \<Rightarrow> nat" where
  "find_bid_insert levels p = lower_bound (\<lambda>level v. level_price level > v) levels p"

definition find_ask_insert :: "price_level list \<Rightarrow> int \<Rightarrow> nat" where
  "find_ask_insert levels p = lower_bound (\<lambda>level v. level_price level < v) levels p"

text \<open>\<open>levels.insert(it, x)\<close> and \<open>levels.erase(it)\<close> of \<^verbatim>\<open>std::vector\<close>.\<close>

definition vec_insert :: "'a list \<Rightarrow> nat \<Rightarrow> 'a \<Rightarrow> 'a list" where
  "vec_insert xs it x = take it xs @ x # drop it xs"

definition vec_erase :: "'a list \<Rightarrow> nat \<Rightarrow> 'a list" where
  "vec_erase xs it = take it xs @ drop (Suc it) xs"

definition ensure_bid_level :: "price_level list \<Rightarrow> int \<Rightarrow> price_level list \<times> nat" where
  "ensure_bid_level levels p =
     (let it = find_bid_insert levels p
      in if it = length levels \<or> level_price (levels ! it) \<noteq> p
         then (vec_insert levels it \<lparr>level_price = p, ids = []\<rparr>, it)
         else (levels, it))"

definition ensure_ask_level :: "price_level list \<Rightarrow> int \<Rightarrow> price_level list \<times> nat" where
  "ensure_ask_level levels p =
     (let it = find_ask_insert levels p
      in if it = length levels \<or> level_price (levels ! it) \<noteq> p
         then (vec_insert levels it \<lparr>level_price = p, ids = []\<rparr>, it)
         else (levels, it))"

definition find_bid_level :: "price_level list \<Rightarrow> int \<Rightarrow> nat" where
  "find_bid_level levels p =
     (let it = find_bid_insert levels p
      in if it \<noteq> length levels \<and> level_price (levels ! it) = p then it
         else length levels)"

definition find_ask_level :: "price_level list \<Rightarrow> int \<Rightarrow> nat" where
  "find_ask_level levels p =
     (let it = find_ask_insert levels p
      in if it \<noteq> length levels \<and> level_price (levels ! it) = p then it
         else length levels)"

text \<open>
  The loop of \<open>remove_id_from_level\<close>, from index \<open>i\<close> on: the first occurrence of the id
  is overwritten with the last element and the last element is popped.
\<close>

function remove_id_loop :: "ident list \<Rightarrow> ident \<Rightarrow> nat \<Rightarrow> bool \<times> ident list" where
  "remove_id_loop xs x i =
     (if i < length xs
      then (if xs ! i = x then (True, butlast (xs[i := last xs]))
            else remove_id_loop xs x (Suc i))
      else (False, xs))"
  by pat_completeness auto
termination
  by (relation "measure (\<lambda>(xs, x, i). length xs - i)") auto

declare remove_id_loop.simps [simp del]

definition remove_id_from_level :: "price_level \<Rightarrow> ident \<Rightarrow> bool \<times> price_level" where
  "remove_id_from_level level x =
     (let (ok, xs) = remove_id_loop (ids level) x 0 in (ok, level\<lparr>ids := xs\<rparr>))"

record vbook =
  orders :: "ident \<rightharpoonup> order"
  bids :: "price_level list"
  asks :: "price_level list"

definition vec_empty :: vbook where
  "vec_empty = \<lparr>orders = Map.empty, bids = [], asks = []\<rparr>"

definition push_id :: "price_level list \<Rightarrow> nat \<Rightarrow> ident \<Rightarrow> price_level list" where
  "push_id levels it x = levels[it := (levels ! it)\<lparr>ids := ids (levels ! it) @ [x]\<rparr>]"

definition vec_place :: "vbook \<Rightarrow> order \<Rightarrow> bool \<times> vbook" where
  "vec_place s v =
     (if amount v = 0 \<or> orders s (oid v) \<noteq> None then (False, s)
      else
        let s1 = (if is_bid (amount v)
                  then (let (levels, it) = ensure_bid_level (bids s) (price v)
                        in s\<lparr>bids := push_id levels it (oid v)\<rparr>)
                  else (let (levels, it) = ensure_ask_level (asks s) (price v)
                        in s\<lparr>asks := push_id levels it (oid v)\<rparr>))
        in (True, s1\<lparr>orders := (orders s1)(oid v \<mapsto> v)\<rparr>))"

text \<open>
  The body shared by the two branches of \<open>cancel\<close> once the level iterator is known:
  \<open>None\<close> is the \<^verbatim>\<open>return false\<close>, taken before anything is written.
\<close>

definition cancel_in_levels :: "price_level list \<Rightarrow> nat \<Rightarrow> ident \<Rightarrow> price_level list option" where
  "cancel_in_levels levels it x =
     (if it = length levels then None
      else case remove_id_from_level (levels ! it) x of
             (False, _) \<Rightarrow> None
           | (True, level') \<Rightarrow>
               Some (if ids level' = [] then vec_erase levels it else levels[it := level']))"

definition vec_cancel :: "vbook \<Rightarrow> ident \<Rightarrow> bool \<times> vbook" where
  "vec_cancel s i =
     (case orders s i of
        None \<Rightarrow> (False, s)
      | Some current \<Rightarrow>
          if is_bid (amount current)
          then (case cancel_in_levels (bids s) (find_bid_level (bids s) (price current)) i of
                  None \<Rightarrow> (False, s)
                | Some levels \<Rightarrow> (True, s\<lparr>bids := levels, orders := (orders s)(i := None)\<rparr>))
          else (case cancel_in_levels (asks s) (find_ask_level (asks s) (price current)) i of
                  None \<Rightarrow> (False, s)
                | Some levels \<Rightarrow> (True, s\<lparr>asks := levels, orders := (orders s)(i := None)\<rparr>)))"

definition vec_modify :: "vbook \<Rightarrow> order \<Rightarrow> bool \<times> vbook" where
  "vec_modify s v =
     (if amount v = 0 then vec_cancel s (oid v)
      else if orders s (oid v) = None then (False, s)
      else
        let (ok, s1) = vec_cancel s (oid v)
        in if \<not> ok then (False, s1) else vec_place s1 v)"

definition best_from_levels :: "(ident \<rightharpoonup> order) \<Rightarrow> price_level list \<Rightarrow> order option" where
  "best_from_levels os levels =
     (case levels of
        [] \<Rightarrow> None
      | front # rest \<Rightarrow> (case ids front of [] \<Rightarrow> None | i # others \<Rightarrow> os i))"

definition vec_best_bid :: "vbook \<Rightarrow> order option" where
  "vec_best_bid s = best_from_levels (orders s) (bids s)"

definition vec_best_ask :: "vbook \<Rightarrow> order option" where
  "vec_best_ask s = best_from_levels (orders s) (asks s)"

fun vec_step :: "vbook \<Rightarrow> op \<Rightarrow> vbook" where
  "vec_step s (Place v) = snd (vec_place s v)"
| "vec_step s (Modify v) = snd (vec_modify s v)"
| "vec_step s (Cancel i) = snd (vec_cancel s i)"

definition vec_run :: "vbook \<Rightarrow> op list \<Rightarrow> vbook" where
  "vec_run s ops = foldl vec_step s ops"

section \<open>Example orders and states\<close>

definition ex_o1 :: order where
  "ex_o1 = \<lparr>oid = 1, price = 100, amount = 5\<rparr>"

definition ex_o2 :: order where
  "ex_o2 = \<lparr>oid = 2, price = 100, amount = 3\<rparr>"

definition ex_o3 :: order where
  "ex_o3 = \<lparr>oid = 3, price = 101, amount = 1\<rparr>"

definition ex_a4 :: order where
  "ex_a4 = \<lparr>oid = 4, price = 102, amount = - 2\<rparr>"

definition ex_a5 :: order where
  "ex_a5 = \<lparr>oid = 5, price = 98, amount = - 4\<rparr>"

definition ex_m1 :: order where
  "ex_m1 = \<lparr>oid = 1, price = 100, amount = 6\<rparr>"

definition ex_mbook :: mbook where
  "ex_mbook = map_run map_empty [Place ex_o1]"

definition ex_vbook :: vbook where
  "ex_vbook = vec_run vec_empty [Place ex_o1]"

definition ex_vbook2 :: vbook where
  "ex_vbook2 = vec_run vec_empty [Place ex_o1, Place ex_o2]"

section \<open>Invariants of the ordered-map book\<close>

text \<open>
  \<open>key_order\<close> names the two comparators a book is built with. \<open>index_sound\<close> says
  that every index entry points at a stored order of that price and side; \<open>store_ok\<close>
  that every stored order sits under its own id and has a non-zero amount. \<open>map_inv\<close>
  is what every reachable ordered-map book satisfies: keys strictly ordered, both indexes
  sound, the store well-formed. It does not say that every stored order is indexed.
  \<open>stuck\<close> describes an order that is stored while no index entry carries its id, and
  \<open>prices_covered\<close> that every stored price is a key of its side's index.
\<close>

definition key_order :: "(int \<Rightarrow> int \<Rightarrow> bool) \<Rightarrow> bool" where
  "key_order cmp = (cmp = bid_comp \<or> cmp = ask_comp)"

definition index_sound :: "(ident \<rightharpoonup> order) \<Rightarrow> bool \<Rightarrow> book \<Rightarrow> bool" where
  "index_sound os side b =
     (\<forall>(p, i) \<in> set b. \<exists>v. os i = Some v \<and> price v = p \<and> is_bid (amount v) = side)"

definition store_ok :: "(ident \<rightharpoonup> order) \<Rightarrow> bool" where
  "store_ok os = (\<forall>i v. os i = Some v \<longrightarrow> oid v = i \<and> amount v \<noteq> 0)"

definition map_inv :: "mbook \<Rightarrow> bool" where
  "map_inv s =
     (sorted_wrt bid_comp (map fst (m_bids s)) \<and> sorted_wrt ask_comp (map fst (m_asks s)) \<and>
      index_sound (m_orders s) True (m_bids s) \<and> index_sound (m_orders s) False (m_asks s) \<and>
      store_ok (m_orders s))"

definition stuck :: "mbook \<Rightarrow> order \<Rightarrow> bool" where
  "stuck s v =
     ((\<exists>w. m_orders s (oid v) = Some w \<and> oid w = oid v \<and> price w = price v \<and>
           is_bid (amount w) = is_bid (amount v)) \<and>
      oid v \<notin> snd ` set (m_bids s) \<and> oid v \<notin> snd ` set (m_asks s))"

definition prices_covered :: "(ident \<rightharpoonup> order) \<Rightarrow> book \<Rightarrow> book \<Rightarrow> bool" where
  "prices_covered os bs as =
     (\<forall>i v. os i = Some v \<longrightarrow>
        (if is_bid (amount v) then price v \<in> fst ` set bs else price v \<in> fst ` set as))"

section \<open>Invariants of the sorted-bucket book\<close>

text \<open>
  Structural descriptions of what the index-based code does to a sequence: \<open>swap_remove\<close>
  is the result of \<open>remove_id_from_level\<close> on an id sequence, \<open>ins_level\<close> the level
  sequence after the \<open>ensure_*_level\<close> and \<open>push_back\<close> of \<open>place\<close>, \<open>del_level\<close> the
  level sequence after the \<open>find_*_level\<close>, removal and \<open>erase\<close> of \<open>cancel\<close>. Each is
  proved equal to the model of the code below, for every level sequence.
\<close>

fun swap_remove :: "ident \<Rightarrow> ident list \<Rightarrow> ident list" where
  "swap_remove x [] = []"
| "swap_remove x (y # ys) =
     (if y = x then (if ys = [] then [] else last ys # butlast ys) else y # swap_remove x ys)"

fun ins_level :: "(int \<Rightarrow> int \<Rightarrow> bool) \<Rightarrow> int \<Rightarrow> ident \<Rightarrow> price_level list \<Rightarrow> price_level list" where
  "ins_level cmp p x [] = [\<lparr>level_price = p, ids = [x]\<rparr>]"
| "ins_level cmp p x (l # ls) =
     (if cmp (level_price l) p then l # ins_level cmp p x ls
      else if level_price l = p then l\<lparr>ids := ids l @ [x]\<rparr> # ls
      else \<lparr>level_price = p, ids = [x]\<rparr> # l # ls)"

fun del_level :: "(int \<Rightarrow> int \<Rightarrow> bool) \<Rightarrow> int \<Rightarrow> ident \<Rightarrow> price_level list \<Rightarrow> price_level list option" where
  "del_level cmp p x [] = None"
| "del_level cmp p x (l # ls) =
     (if cmp (level_price l) p then map_option (Cons l) (del_level cmp p x ls)
      else if level_price l = p \<and> x \<in> set (ids l)
      then Some (if swap_remove x (ids l) = [] then ls else l\<lparr>ids := swap_remove x (ids l)\<rparr> # ls)
      else None)"

text \<open>
  \<open>level_pairs\<close> lists the (price, id) entries of a level sequence. \<open>levels_ok\<close>:
  prices strictly ordered, no empty level, no id twice. \<open>store_indexed\<close>: every stored
  order has its entry on its side. \<open>vec_inv\<close> is what every reachable sorted-bucket
  book satisfies; with \<open>index_sound\<close> and \<open>store_indexed\<close> it says that store and
  indexes agree in both directions.
\<close>

definition level_pairs :: "price_level list \<Rightarrow> book" where
  "level_pairs ls = concat (map (\<lambda>l. map (Pair (level_price l)) (ids l)) ls)"

definition levels_ok :: "(int \<Rightarrow> int \<Rightarrow> bool) \<Rightarrow> price_level list \<Rightarrow> bool" where
  "levels_ok cmp ls =
     (sorted_wrt cmp (map level_price ls) \<and> (\<forall>l \<in> set ls. ids l \<noteq> []) \<and>
      distinct (concat (map ids ls)))"

definition store_indexed :: "(ident \<rightharpoonup> order) \<Rightarrow> book \<Rightarrow> book \<Rightarrow> bool" where
  "store_indexed os bs as =
     (\<forall>i v. os i = Some v \<longrightarrow>
        (if is_bid (amount v) then (price v, i) \<in> set bs else (price v, i) \<in> set as))"

definition vec_inv :: "vbook \<Rightarrow> bool" where
  "vec_inv s =
     (levels_ok bid_comp (bids s) \<and> levels_ok ask_comp (asks s) \<and>
      index_sound (orders s) True (level_pairs (bids s)) \<and>
      index_sound (orders s) False (level_pairs (asks s)) \<and>
      store_ok (orders s) \<and>
      store_indexed (orders s) (level_pairs (bids s)) (level_pairs (asks s)))"

text \<open>
  What \<open>cancel\<close> followed by \<open>place\<close> at the same price does to the level of that
  price: the id is swap-removed and appended at the back.
\<close>

definition requeue :: "ident \<Rightarrow> int \<Rightarrow> price_level \<Rightarrow> price_level" where
  "requeue i p l =
     (if level_price l = p then l\<lparr>ids := ids (snd (remove_id_from_level l i)) @ [i]\<rparr> else l)"

section \<open>The best order of a side\<close>

text \<open>
  \<open>highest_bid os r\<close>: \<open>r\<close> is a stored order with amount > 0 whose price no stored
  order with amount > 0 exceeds, or none when no stored order has amount > 0;
  \<open>lowest_ask\<close> likewise for amount < 0 and the lowest price.
\<close>

definition highest_bid :: "(ident \<rightharpoonup> order) \<Rightarrow> order option \<Rightarrow> bool" where
  "highest_bid os r =
     (case r of
        None \<Rightarrow> (\<forall>v \<in> ran os. \<not> amount v > 0)
      | Some b \<Rightarrow> b \<in> ran os \<and> amount b > 0 \<and> (\<forall>v \<in> ran os. amount v > 0 \<longrightarrow> price v \<le> price b))"

definition lowest_ask :: "(ident \<rightharpoonup> order) \<Rightarrow> order option \<Rightarrow> bool" where
  "lowest_ask os r =
     (case r of
        None \<Rightarrow> (\<forall>v \<in> ran os. \<not> amount v < 0)
      | Some b \<Rightarrow> b \<in> ran os \<and> amount b < 0 \<and> (\<forall>v \<in> ran os. amount v < 0 \<longrightarrow> price b \<le> price v))"

section \<open>Unfolding rules for evaluation\<close>

lemmas ex_defs = ex_o1_def ex_o2_def ex_mbook_def ex_vbook_def map_run_def vec_run_def
  map_empty_def vec_empty_def

lemmas map_defs = map_place_def map_cancel_def map_modify_def add_to_book_def
  remove_from_book_def is_bid_def bid_comp_def ask_comp_def best_from_book_def
  map_best_bid_def map_best_ask_def

lemmas vec_defs = vec_place_def vec_cancel_def vec_modify_def is_bid_def
  ensure_bid_level_def ensure_ask_level_def find_bid_level_def find_ask_level_def
  find_bid_insert_def find_ask_insert_def lower_bound_def vec_insert_def vec_erase_def
  push_id_def cancel_in_levels_def remove_id_from_level_def best_from_levels_def
  vec_best_bid_def vec_best_ask_def

section \<open>Failure leaves the book untouched\<close>

lemma add_to_book_ok: "fst (add_to_book s v)"
  by (simp add: add_to_book_def)

lemma remove_from_book_fail: "\<not> fst (remove_from_book s v) \<Longrightarrow> snd (remove_from_book s v) = s"
  by (simp add: remove_from_book_def split: if_splits option.splits)

lemma map_place_fail: "\<not> fst (map_place s v) \<Longrightarrow> snd (map_place s v) = s"
  using add_to_book_ok [of "s\<lparr>m_orders := (m_orders s)(oid v \<mapsto> v)\<rparr>" v]
  by (auto simp add: map_place_def Let_def case_prod_beta split: if_splits)

lemma map_place_rejects:
  "amount v = 0 \<or> m_orders s (oid v) \<noteq> None \<Longrightarrow> \<not> fst (map_place s v)"
  by (auto simp add: map_place_def)

lemma map_cancel_fail: "\<not> fst (map_cancel s i) \<Longrightarrow> snd (map_cancel s i) = s"
proof (cases "m_orders s i")
  case None
  then show ?thesis by (simp add: map_cancel_def)
next
  case (Some v)
  assume "\<not> fst (map_cancel s i)"
  with Some have "\<not> fst (remove_from_book s v)"
    by (simp add: map_cancel_def Let_def case_prod_beta split: if_splits)
  with Some show ?thesis
    using remove_from_book_fail [of s v]
    by (simp add: map_cancel_def Let_def case_prod_beta)
qed

lemma map_modify_fail: "\<not> fst (map_modify s v) \<Longrightarrow> snd (map_modify s v) = s"
proof -
  assume f: "\<not> fst (map_modify s v)"
  show ?thesis
  proof (cases "amount v = 0")
    case True
    with f show ?thesis using map_cancel_fail [of s "oid v"] by (simp add: map_modify_def)
  next
    case nz: False
    show ?thesis
    proof (cases "m_orders s (oid v)")
      case None
      with nz show ?thesis by (simp add: map_modify_def)
    next
      case (Some previous)
      show ?thesis
      proof (cases "fst (remove_from_book s previous)")
        case False
        with nz Some f show ?thesis
          using remove_from_book_fail [of s previous]
          by (auto simp add: map_modify_def Let_def case_prod_beta split: if_splits)
      next
        case True
        have "fst (add_to_book ((snd (remove_from_book s previous))\<lparr>m_orders := (m_orders (snd (remove_from_book s previous)))(oid v \<mapsto> v)\<rparr>) v)"
          by (rule add_to_book_ok)
        with nz Some f True show ?thesis
          by (auto simp add: map_modify_def Let_def case_prod_beta split: if_splits)
      qed
    qed
  qed
qed

lemma vec_place_fail: "\<not> fst (vec_place s v) \<Longrightarrow> snd (vec_place s v) = s"
  by (auto simp add: vec_place_def Let_def case_prod_beta split: if_splits)

lemma vec_place_rejects:
  "amount v = 0 \<or> orders s (oid v) \<noteq> None \<Longrightarrow> \<not> fst (vec_place s v)"
  by (auto simp add: vec_place_def)

lemma vec_place_ok_iff: "fst (vec_place s v) \<longleftrightarrow> amount v \<noteq> 0 \<and> orders s (oid v) = None"
  by (auto simp add: vec_place_def Let_def)

lemma vec_cancel_fail: "\<not> fst (vec_cancel s i) \<Longrightarrow> snd (vec_cancel s i) = s"
  by (auto simp add: vec_cancel_def split: option.splits if_splits)

lemma vec_cancel_ok_orders: "fst (vec_cancel s i) \<Longrightarrow> orders (snd (vec_cancel s i)) = (orders s)(i := None)"
  by (auto simp add: vec_cancel_def split: option.splits if_splits)

lemma vec_modify_fail: "\<not> fst (vec_modify s v) \<Longrightarrow> snd (vec_modify s v) = s"
proof -
  assume f: "\<not> fst (vec_modify s v)"
  show ?thesis
  proof (cases "amount v = 0 \<or> orders s (oid v) = None \<or> \<not> fst (vec_cancel s (oid v))")
    case True
    with f show ?thesis
      using vec_cancel_fail [of s "oid v"]
      by (auto simp add: vec_modify_def Let_def case_prod_beta)
  next
    case False
    then have "fst (vec_place (snd (vec_cancel s (oid v))) v)"
      by (simp add: vec_place_ok_iff vec_cancel_ok_orders)
    with False f show ?thesis
      by (auto simp add: vec_modify_def Let_def case_prod_beta)
  qed
qed

text \<open>
  C4. In both books \<open>place\<close> returns false when the amount is zero or the id is
  already active, and a \<open>place\<close> that returns false leaves the whole book (store and
  both indexes) as it was. This holds in every state, reachable or not.
\<close>

theorem place_rejects_and_keeps_state:
  "(amount v = 0 \<or> m_orders s (oid v) \<noteq> None \<longrightarrow> \<not> fst (map_place s v)) \<and>
   (\<not> fst (map_place s v) \<longrightarrow> snd (map_place s v) = s) \<and>
   (amount v = 0 \<or> orders t (oid v) \<noteq> None \<longrightarrow> \<not> fst (vec_place t v)) \<and>
   (\<not> fst (vec_place t v) \<longrightarrow> snd (vec_place t v) = t)"
  using map_place_rejects map_place_fail vec_place_rejects vec_place_fail by blast

theorem place_rejects_and_keeps_state_witness:
  "m_orders ex_mbook (oid ex_o1) \<noteq> None \<and> \<not> fst (map_place ex_mbook ex_o1) \<and>
   snd (map_place ex_mbook ex_o1) = ex_mbook \<and>
   orders ex_vbook (oid ex_o1) \<noteq> None \<and> \<not> fst (vec_place ex_vbook ex_o1) \<and>
   snd (vec_place ex_vbook ex_o1) = ex_vbook"
proof -
  have m: "m_orders ex_mbook (oid ex_o1) \<noteq> None"
    by (simp add: ex_defs map_defs)
  have v: "orders ex_vbook (oid ex_o1) \<noteq> None"
    by (simp add: ex_defs vec_defs)
  from m v place_rejects_and_keeps_state [of ex_o1 ex_mbook ex_vbook]
  show ?thesis by blast
qed

text \<open>
  C6. In both books a \<open>modify\<close> that returns false leaves the whole book (store and
  both indexes) identical to the state before the call. This holds in every state, so in
  particular in every reachable one.
\<close>

theorem modify_failure_keeps_state:
  "(\<not> fst (map_modify s v) \<longrightarrow> snd (map_modify s v) = s) \<and>
   (\<not> fst (vec_modify t v) \<longrightarrow> snd (vec_modify t v) = t)"
  using map_modify_fail vec_modify_fail by blast

theorem modify_failure_keeps_state_witness:
  "\<not> fst (map_modify ex_mbook ex_o2) \<and> snd (map_modify ex_mbook ex_o2) = ex_mbook \<and>
   \<not> fst (vec_modify ex_vbook ex_o2) \<and> snd (vec_modify ex_vbook ex_o2) = ex_vbook"
proof -
  have m: "\<not> fst (map_modify ex_mbook ex_o2)"
    by (simp add: ex_defs map_defs)
  have v: "\<not> fst (vec_modify ex_vbook ex_o2)"
    by (simp add: ex_defs vec_defs Let_def)
  from m v modify_failure_keeps_state [of ex_mbook ex_o2 ex_vbook]
  show ?thesis by blast
qed

section \<open>The ordered-map book keeps its index sound\<close>

lemma key_order_cases:
  assumes "key_order cmp"
  shows "\<not> cmp a a" and "cmp a b \<Longrightarrow> cmp b c \<Longrightarrow> cmp a c"
    and "\<not> cmp a b \<Longrightarrow> \<not> cmp b a \<Longrightarrow> a = b" and "cmp a b \<Longrightarrow> \<not> cmp b a"
  using assms by (auto simp: key_order_def bid_comp_def ask_comp_def)

lemma set_emplace_subset: "set (emplace cmp b k v) \<subseteq> insert (k, v) (set b)"
  by (induction b) (auto split: if_splits)

lemma keys_emplace:
  "key_order cmp \<Longrightarrow> fst ` set (emplace cmp b k v) = insert k (fst ` set b)"
proof (induction b)
  case Nil
  then show ?case by simp
next
  case (Cons e b)
  obtain k' v' where e: "e = (k', v')" by (cases e)
  show ?case
    using Cons key_order_cases(3) [OF Cons.prems, of k' k]
    by (auto simp: e)
qed

lemma emplace_occupied:
  "key_order cmp \<Longrightarrow> sorted_wrt cmp (map fst b) \<Longrightarrow> k \<in> fst ` set b \<Longrightarrow>
   emplace cmp b k v = b"
proof (induction b)
  case Nil
  then show ?case by simp
next
  case (Cons e b)
  obtain k' v' where e: "e = (k', v')" by (cases e)
  show ?case
  proof (cases "cmp k' k")
    case True
    with Cons e key_order_cases(1) [OF Cons.prems(1), of k] show ?thesis by auto
  next
    case False
    have "\<not> cmp k k'"
    proof
      assume c: "cmp k k'"
      then have "k \<noteq> k'" using key_order_cases(1) [OF Cons.prems(1)] by auto
      with Cons.prems(3) e have "k \<in> fst ` set b" by auto
      with Cons.prems(2) e have "cmp k' k" by auto
      with c key_order_cases(4) [OF Cons.prems(1)] show False by blast
    qed
    with False e show ?thesis by simp
  qed
qed

lemma sorted_emplace:
  "key_order cmp \<Longrightarrow> sorted_wrt cmp (map fst b) \<Longrightarrow> sorted_wrt cmp (map fst (emplace cmp b k v))"
proof (induction b)
  case Nil
  then show ?case by simp
next
  case (Cons e b)
  obtain k' v' where e: "e = (k', v')" by (cases e)
  have sub: "fst ` set (emplace cmp b k v) = insert k (fst ` set b)"
    by (rule keys_emplace [OF Cons.prems(1)])
  show ?case
  proof (cases "cmp k' k")
    case True
    with Cons e sub show ?thesis by auto
  next
    case False
    with Cons e key_order_cases(2) [OF Cons.prems(1)] show ?thesis by auto
  qed
qed

lemma erase_in_range_Some:
  "key_order cmp \<Longrightarrow> erase_in_range cmp b k i = Some b' \<Longrightarrow>
   \<exists>pre post. b = pre @ (k, i) # post \<and> b' = pre @ post"
proof (induction b arbitrary: b')
  case Nil
  then show ?case by simp
next
  case (Cons e b)
  obtain k' v' where e: "e = (k', v')" by (cases e)
  show ?case
  proof (cases "\<not> cmp k' k \<and> \<not> cmp k k' \<and> v' = i")
    case True
    then have "k' = k" using key_order_cases(3) [OF Cons.prems(1)] by blast
    with True Cons.prems(2) e have "e # b = [] @ (k, i) # b \<and> b' = [] @ b" by simp
    then show ?thesis by blast
  next
    case False
    with Cons.prems(2) e obtain b'' where r: "erase_in_range cmp b k i = Some b''" and b': "b' = e # b''"
      by (auto split: if_splits)
    from Cons.IH [OF Cons.prems(1) r] obtain pre post where "b = pre @ (k, i) # post" "b'' = pre @ post"
      by blast
    with b' have "e # b = (e # pre) @ (k, i) # post \<and> b' = (e # pre) @ post" by simp
    then show ?thesis by blast
  qed
qed

lemma erase_in_range_None:
  "erase_in_range cmp b k i = None \<Longrightarrow> key_order cmp \<Longrightarrow> sorted_wrt cmp (map fst b) \<Longrightarrow> (k, i) \<notin> set b"
proof (induction b)
  case Nil
  then show ?case by simp
next
  case (Cons e b)
  obtain k' v' where e: "e = (k', v')" by (cases e)
  show ?case
  proof (cases "cmp k' k")
    case True
    with Cons e key_order_cases(1) [OF Cons.prems(2), of k] show ?thesis
      by (auto split: if_splits)
  next
    case False
    note nk = False
    show ?thesis
    proof (cases "cmp k k'")
      case True
      have "(k, i) \<notin> set b"
      proof
        assume "(k, i) \<in> set b"
        with Cons.prems(3) e have "cmp k' k" by force
        with nk show False by simp
      qed
      with True e key_order_cases(1) [OF Cons.prems(2), of k] show ?thesis by auto
    next
      case False
      with nk have kk: "k' = k" using key_order_cases(3) [OF Cons.prems(2)] by blast
      have "(k, i) \<notin> set b"
      proof
        assume "(k, i) \<in> set b"
        with Cons.prems(3) e kk have "cmp k k" by force
        with key_order_cases(1) [OF Cons.prems(2)] show False by simp
      qed
      with Cons.prems(1) e nk False kk show ?thesis by (auto split: if_splits)
    qed
  qed
qed

lemma sorted_keys_unique:
  "key_order cmp \<Longrightarrow> sorted_wrt cmp (map fst (pre @ (k, i) # post)) \<Longrightarrow>
   k \<notin> fst ` set (pre @ post)"
  using key_order_cases(1) [of cmp k]
  by (auto simp: sorted_wrt_append)

lemma sorted_remove_mid:
  "sorted_wrt cmp (map fst (pre @ e # post)) \<Longrightarrow> sorted_wrt cmp (map fst (pre @ post))"
  by (auto simp: sorted_wrt_append)

lemma key_order_bid [simp]: "key_order bid_comp" and key_order_ask [simp]: "key_order ask_comp"
  by (simp_all add: key_order_def)

lemma map_inv_empty: "map_inv map_empty"
  by (simp add: map_inv_def map_empty_def index_sound_def store_ok_def)

lemma index_sound_emplace:
  "index_sound os side b \<Longrightarrow> os i = Some v \<Longrightarrow> price v = k \<Longrightarrow> is_bid (amount v) = side \<Longrightarrow>
   index_sound os side (emplace cmp b k i)"
  using set_emplace_subset [of cmp b k i]
  by (auto simp: index_sound_def)

lemma index_sound_store_upd:
  "index_sound os side b \<Longrightarrow> os i = None \<Longrightarrow> index_sound (os(i \<mapsto> v)) side b"
  by (auto simp: index_sound_def)

lemma index_sound_store_same:
  "index_sound os side b \<Longrightarrow> os i = Some w \<Longrightarrow> price w = price v \<Longrightarrow>
   is_bid (amount w) = is_bid (amount v) \<Longrightarrow> index_sound (os(i \<mapsto> v)) side b"
  by (auto simp: index_sound_def)

lemma index_sound_not_in:
  "index_sound os side b \<Longrightarrow> i \<notin> snd ` set b \<Longrightarrow> index_sound (os(i := w)) side b"
  by (force simp: index_sound_def)

lemma index_sound_other_side:
  "index_sound os side b \<Longrightarrow> os i = Some v \<Longrightarrow> is_bid (amount v) \<noteq> side \<Longrightarrow> i \<notin> snd ` set b"
  by (force simp: index_sound_def)

lemma index_sound_absent:
  "index_sound os side b \<Longrightarrow> os i = None \<Longrightarrow> i \<notin> snd ` set b"
  by (force simp: index_sound_def)

text \<open>Erasing the entry of an indexed order leaves no entry with its id on that side.\<close>

lemma erase_in_range_sound:
  assumes ko: "key_order cmp" and so: "sorted_wrt cmp (map fst b)"
    and snd: "index_sound os side b" and v: "os i = Some v"
    and er: "erase_in_range cmp b (price v) i = Some b'"
  shows "sorted_wrt cmp (map fst b') \<and> index_sound os side b' \<and> i \<notin> snd ` set b' \<and> set b' \<subseteq> set b"
proof -
  from erase_in_range_Some [OF ko er] obtain pre post
    where b: "b = pre @ (price v, i) # post" and b': "b' = pre @ post" by blast
  have s': "sorted_wrt cmp (map fst b')"
    using so unfolding b b' by (rule sorted_remove_mid)
  have sub: "set b' \<subseteq> set b" unfolding b b' by auto
  have snd': "index_sound os side b'"
    using snd sub by (auto simp: index_sound_def)
  have "i \<notin> snd ` set b'"
  proof
    assume "i \<in> snd ` set b'"
    then obtain p where p: "(p, i) \<in> set b'" by auto
    with snd' v have "p = price v" by (auto simp: index_sound_def)
    with p have "price v \<in> fst ` set (pre @ post)" unfolding b' by force
    with sorted_keys_unique [OF ko so [unfolded b]] show False by simp
  qed
  with s' snd' sub show ?thesis by simp
qed

lemma remove_from_book_inv:
  assumes inv: "map_inv s" and v: "m_orders s i = Some v"
    and ok: "fst (remove_from_book s v)"
  shows "map_inv (snd (remove_from_book s v)) \<and>
      i \<notin> snd ` set (m_bids (snd (remove_from_book s v))) \<and>
      i \<notin> snd ` set (m_asks (snd (remove_from_book s v))) \<and>
      m_orders (snd (remove_from_book s v)) = m_orders s \<and>
      set (m_bids (snd (remove_from_book s v))) \<subseteq> set (m_bids s) \<and>
      set (m_asks (snd (remove_from_book s v))) \<subseteq> set (m_asks s)"
proof (cases "is_bid (amount v)")
  case True
  from inv v have iv: "oid v = i" by (auto simp: map_inv_def store_ok_def)
  from True ok obtain b' where er: "erase_in_range bid_comp (m_bids s) (price v) i = Some b'"
    by (auto simp: remove_from_book_def iv split: option.splits)
  from inv have "sorted_wrt bid_comp (map fst (m_bids s))" "index_sound (m_orders s) True (m_bids s)"
    by (simp_all add: map_inv_def)
  from erase_in_range_sound [OF key_order_bid this v er]
  have r: "sorted_wrt bid_comp (map fst b')" "index_sound (m_orders s) True b'"
    "i \<notin> snd ` set b'" "set b' \<subseteq> set (m_bids s)"
    by simp_all
  from inv v True have "i \<notin> snd ` set (m_asks s)"
    using index_sound_other_side [of "m_orders s" False "m_asks s" i v]
    by (simp add: map_inv_def)
  with r inv True er show ?thesis
    by (simp add: remove_from_book_def iv map_inv_def)
next
  case False
  from inv v have iv: "oid v = i" by (auto simp: map_inv_def store_ok_def)
  from False ok obtain b' where er: "erase_in_range ask_comp (m_asks s) (price v) i = Some b'"
    by (auto simp: remove_from_book_def iv split: option.splits)
  from inv have "sorted_wrt ask_comp (map fst (m_asks s))" "index_sound (m_orders s) False (m_asks s)"
    by (simp_all add: map_inv_def)
  from erase_in_range_sound [OF key_order_ask this v er]
  have r: "sorted_wrt ask_comp (map fst b')" "index_sound (m_orders s) False b'"
    "i \<notin> snd ` set b'" "set b' \<subseteq> set (m_asks s)"
    by simp_all
  from inv v False have "i \<notin> snd ` set (m_bids s)"
    using index_sound_other_side [of "m_orders s" True "m_bids s" i v]
    by (simp add: map_inv_def)
  with r inv False er show ?thesis
    by (simp add: remove_from_book_def iv map_inv_def)
qed

text \<open>Indexing a stored order that no index entry mentions yet.\<close>

lemma add_to_book_inv:
  assumes so: "sorted_wrt bid_comp (map fst (m_bids s))" "sorted_wrt ask_comp (map fst (m_asks s))"
    and sb: "index_sound os True (m_bids s)" and sa: "index_sound os False (m_asks s)"
    and st: "store_ok os" and nz: "amount v \<noteq> 0"
    and nb: "oid v \<notin> snd ` set (m_bids s)" and na: "oid v \<notin> snd ` set (m_asks s)"
  shows "map_inv (snd (add_to_book (s\<lparr>m_orders := os(oid v \<mapsto> v)\<rparr>) v))"
proof -
  let ?os = "os(oid v \<mapsto> v)"
  have sb': "index_sound ?os True (m_bids s)" using sb nb by (rule index_sound_not_in)
  have sa': "index_sound ?os False (m_asks s)" using sa na by (rule index_sound_not_in)
  have st': "store_ok ?os" using st nz by (auto simp: store_ok_def)
  show ?thesis
  proof (cases "is_bid (amount v)")
    case True
    have "index_sound ?os True (emplace bid_comp (m_bids s) (price v) (oid v))"
      using sb' True by (intro index_sound_emplace [where v = v]) simp_all
    with so sa' st' True show ?thesis
      by (simp add: add_to_book_def map_inv_def sorted_emplace)
  next
    case False
    have "index_sound ?os False (emplace ask_comp (m_asks s) (price v) (oid v))"
      using sa' False by (intro index_sound_emplace [where v = v]) simp_all
    with so sb' st' False show ?thesis
      by (simp add: add_to_book_def map_inv_def sorted_emplace)
  qed
qed

lemma map_place_inv: "map_inv s \<Longrightarrow> map_inv (snd (map_place s v))"
proof (cases "fst (map_place s v)")
  case False
  assume "map_inv s"
  with False show ?thesis by (simp add: map_place_fail)
next
  case True
  assume inv: "map_inv s"
  from True have nz: "amount v \<noteq> 0" and fresh: "m_orders s (oid v) = None"
    by (auto simp: map_place_def split: if_splits)
  from inv fresh have nb: "oid v \<notin> snd ` set (m_bids s)" and na: "oid v \<notin> snd ` set (m_asks s)"
    by (auto simp: map_inv_def dest: index_sound_absent)
  have "map_inv (snd (add_to_book (s\<lparr>m_orders := (m_orders s)(oid v \<mapsto> v)\<rparr>) v))"
    using inv nz nb na by (intro add_to_book_inv) (simp_all add: map_inv_def)
  with nz fresh show ?thesis
    using add_to_book_ok [of "s\<lparr>m_orders := (m_orders s)(oid v \<mapsto> v)\<rparr>" v]
    by (simp add: map_place_def Let_def case_prod_beta)
qed

lemma map_inv_erase_order:
  "map_inv s \<Longrightarrow> i \<notin> snd ` set (m_bids s) \<Longrightarrow> i \<notin> snd ` set (m_asks s) \<Longrightarrow>
   map_inv (s\<lparr>m_orders := (m_orders s)(i := None)\<rparr>)"
  by (auto simp: map_inv_def store_ok_def intro: index_sound_not_in)

lemma map_cancel_inv: "map_inv s \<Longrightarrow> map_inv (snd (map_cancel s i))"
proof (cases "fst (map_cancel s i)")
  case False
  assume "map_inv s"
  with False show ?thesis by (simp add: map_cancel_fail)
next
  case True
  assume inv: "map_inv s"
  from True obtain v where v: "m_orders s i = Some v" and ok: "fst (remove_from_book s v)"
    by (auto simp: map_cancel_def Let_def case_prod_beta split: option.splits if_splits)
  let ?s1 = "snd (remove_from_book s v)"
  from remove_from_book_inv [OF inv v ok]
  have "map_inv ?s1" "i \<notin> snd ` set (m_bids ?s1)" "i \<notin> snd ` set (m_asks ?s1)"
    by simp_all
  then have "map_inv (?s1\<lparr>m_orders := (m_orders ?s1)(i := None)\<rparr>)"
    by (rule map_inv_erase_order)
  with v ok show ?thesis
    by (simp add: map_cancel_def Let_def case_prod_beta)
qed

lemma map_modify_inv: "map_inv s \<Longrightarrow> map_inv (snd (map_modify s v))"
proof (cases "fst (map_modify s v) \<and> amount v \<noteq> 0")
  case False
  assume inv: "map_inv s"
  show ?thesis
  proof (cases "amount v = 0")
    case True
    with inv show ?thesis by (simp add: map_modify_def map_cancel_inv)
  next
    case False
    with \<open>\<not> (fst (map_modify s v) \<and> amount v \<noteq> 0)\<close> inv show ?thesis
      by (simp add: map_modify_fail)
  qed
next
  case True
  assume inv: "map_inv s"
  from True obtain previous where p: "m_orders s (oid v) = Some previous"
    by (auto simp: map_modify_def split: option.splits)
  show ?thesis
  proof (cases "is_bid (amount previous) = is_bid (amount v) \<and> price previous = price v")
    case same: True
    from inv p same True have "map_inv (s\<lparr>m_orders := (m_orders s)(oid v \<mapsto> v)\<rparr>)"
      by (auto simp: map_inv_def store_ok_def intro: index_sound_store_same)
    with True p same show ?thesis by (simp add: map_modify_def)
  next
    case move: False
    from True p move have ok: "fst (remove_from_book s previous)"
      by (auto simp: map_modify_def Let_def case_prod_beta split: if_splits)
    let ?s1 = "snd (remove_from_book s previous)"
    from remove_from_book_inv [OF inv p ok]
    have r: "map_inv ?s1" "oid v \<notin> snd ` set (m_bids ?s1)" "oid v \<notin> snd ` set (m_asks ?s1)"
      by simp_all
    from r(1) have r': "sorted_wrt bid_comp (map fst (m_bids ?s1))"
      "sorted_wrt ask_comp (map fst (m_asks ?s1))"
      "index_sound (m_orders ?s1) True (m_bids ?s1)"
      "index_sound (m_orders ?s1) False (m_asks ?s1)" "store_ok (m_orders ?s1)"
      by (simp_all add: map_inv_def)
    from True have nz: "amount v \<noteq> 0" by simp
    have "map_inv (snd (add_to_book (?s1\<lparr>m_orders := (m_orders ?s1)(oid v \<mapsto> v)\<rparr>) v))"
      by (rule add_to_book_inv [OF r' nz r(2,3)])
    with True p move ok show ?thesis
      using add_to_book_ok [of "?s1\<lparr>m_orders := (m_orders ?s1)(oid v \<mapsto> v)\<rparr>" v]
      by (auto simp add: map_modify_def Let_def case_prod_beta)
  qed
qed

lemma map_step_inv: "map_inv s \<Longrightarrow> map_inv (map_step s x)"
  by (cases x) (simp_all add: map_place_inv map_modify_inv map_cancel_inv)

lemma map_run_inv: "map_inv s \<Longrightarrow> map_inv (map_run s xs)"
  unfolding map_run_def by (induction xs arbitrary: s) (simp_all add: map_step_inv)

lemma map_reachable_inv: "map_inv (map_run map_empty xs)"
  by (rule map_run_inv [OF map_inv_empty])

section \<open>Orders placed at an occupied price in the ordered-map book\<close>

lemma remove_from_book_indexed:
  "fst (remove_from_book s v) \<Longrightarrow> oid v \<in> snd ` set (m_bids s) \<union> snd ` set (m_asks s)"
proof (cases "is_bid (amount v)")
  case True
  assume "fst (remove_from_book s v)"
  with True obtain b' where "erase_in_range bid_comp (m_bids s) (price v) (oid v) = Some b'"
    by (auto simp: remove_from_book_def split: option.splits)
  from erase_in_range_Some [OF key_order_bid this] show ?thesis by force
next
  case False
  assume "fst (remove_from_book s v)"
  with False obtain b' where "erase_in_range ask_comp (m_asks s) (price v) (oid v) = Some b'"
    by (auto simp: remove_from_book_def split: option.splits)
  from erase_in_range_Some [OF key_order_ask this] show ?thesis by force
qed

lemma remove_from_book_shrinks:
  "set (m_bids (snd (remove_from_book s v))) \<subseteq> set (m_bids s) \<and>
   set (m_asks (snd (remove_from_book s v))) \<subseteq> set (m_asks s) \<and>
   m_orders (snd (remove_from_book s v)) = m_orders s"
proof -
  have "\<And>cmp b b'. key_order cmp \<Longrightarrow> erase_in_range cmp b (price v) (oid v) = Some b' \<Longrightarrow> set b' \<subseteq> set b"
    using erase_in_range_Some by fastforce
  from this [OF key_order_bid] this [OF key_order_ask] show ?thesis
    by (auto simp: remove_from_book_def split: option.splits)
qed

lemma add_to_book_grows:
  "snd ` set (m_bids (snd (add_to_book s v))) \<subseteq> insert (oid v) (snd ` set (m_bids s)) \<and>
   snd ` set (m_asks (snd (add_to_book s v))) \<subseteq> insert (oid v) (snd ` set (m_asks s)) \<and>
   m_orders (snd (add_to_book s v)) = m_orders s"
  using set_emplace_subset [of bid_comp "m_bids s" "price v" "oid v"]
    set_emplace_subset [of ask_comp "m_asks s" "price v" "oid v"]
  by (auto simp: add_to_book_def)

lemma stuck_cancel_fails: "stuck s v \<Longrightarrow> \<not> fst (map_cancel s (oid v))"
proof
  assume st: "stuck s v" and ok: "fst (map_cancel s (oid v))"
  from st obtain w where w: "m_orders s (oid v) = Some w" "oid w = oid v"
    by (auto simp: stuck_def)
  with ok have "fst (remove_from_book s w)"
    by (auto simp: map_cancel_def Let_def case_prod_beta split: if_splits)
  from remove_from_book_indexed [OF this] w st show False
    by (auto simp: stuck_def)
qed

lemma stuck_place: "stuck s v \<Longrightarrow> stuck (snd (map_place s x)) v"
proof (cases "fst (map_place s x)")
  case False
  assume "stuck s v"
  with False show ?thesis by (simp add: map_place_fail)
next
  case True
  assume st: "stuck s v"
  from True have fresh: "m_orders s (oid x) = None"
    by (auto simp: map_place_def split: if_splits)
  with st have ne: "oid x \<noteq> oid v" by (force simp: stuck_def)
  let ?s1 = "s\<lparr>m_orders := (m_orders s)(oid x \<mapsto> x)\<rparr>"
  from True have r: "snd (map_place s x) = snd (add_to_book ?s1 x)"
    using add_to_book_ok [of ?s1 x]
    by (auto simp: map_place_def Let_def case_prod_beta split: if_splits)
  from add_to_book_grows [of ?s1 x] st ne show ?thesis
    unfolding r by (auto simp: stuck_def)
qed

lemma stuck_cancel: "map_inv s \<Longrightarrow> stuck s v \<Longrightarrow> stuck (snd (map_cancel s i)) v"
proof (cases "fst (map_cancel s i)")
  case False
  assume "stuck s v"
  with False show ?thesis by (simp add: map_cancel_fail)
next
  case True
  assume inv: "map_inv s" and st: "stuck s v"
  from True obtain w where w: "m_orders s i = Some w" and ok: "fst (remove_from_book s w)"
    by (auto simp: map_cancel_def Let_def case_prod_beta split: option.splits if_splits)
  from inv w have "oid w = i" by (auto simp: map_inv_def store_ok_def)
  with remove_from_book_indexed [OF ok] st have ne: "i \<noteq> oid v" by (force simp: stuck_def)
  from w ok have r: "snd (map_cancel s i) =
      (snd (remove_from_book s w))\<lparr>m_orders := (m_orders (snd (remove_from_book s w)))(i := None)\<rparr>"
    by (simp add: map_cancel_def Let_def case_prod_beta)
  from remove_from_book_shrinks [of s w] st ne show ?thesis
    unfolding r by (auto simp: stuck_def)
qed

lemma stuck_modify: "map_inv s \<Longrightarrow> stuck s v \<Longrightarrow> stuck (snd (map_modify s x)) v"
proof (cases "fst (map_modify s x) \<and> amount x \<noteq> 0")
  case False
  assume inv: "map_inv s" and st: "stuck s v"
  show ?thesis
  proof (cases "amount x = 0")
    case True
    with inv st show ?thesis by (simp add: map_modify_def stuck_cancel)
  next
    case False
    with \<open>\<not> (fst (map_modify s x) \<and> amount x \<noteq> 0)\<close> st show ?thesis
      by (simp add: map_modify_fail)
  qed
next
  case True
  assume inv: "map_inv s" and st: "stuck s v"
  from True obtain previous where p: "m_orders s (oid x) = Some previous"
    by (auto simp: map_modify_def split: option.splits)
  from inv p have op: "oid previous = oid x" by (auto simp: map_inv_def store_ok_def)
  show ?thesis
  proof (cases "is_bid (amount previous) = is_bid (amount x) \<and> price previous = price x")
    case same: True
    with True p have r: "snd (map_modify s x) = s\<lparr>m_orders := (m_orders s)(oid x \<mapsto> x)\<rparr>"
      by (simp add: map_modify_def)
    from st p same show ?thesis unfolding r by (auto simp: stuck_def)
  next
    case move: False
    from True p move have ok: "fst (remove_from_book s previous)"
      by (auto simp: map_modify_def Let_def case_prod_beta split: if_splits)
    with remove_from_book_indexed [OF ok] st op have ne: "oid x \<noteq> oid v" by (force simp: stuck_def)
    let ?s1 = "snd (remove_from_book s previous)"
    let ?s2 = "?s1\<lparr>m_orders := (m_orders ?s1)(oid x \<mapsto> x)\<rparr>"
    from True p move ok have r: "snd (map_modify s x) = snd (add_to_book ?s2 x)"
      using add_to_book_ok [of ?s2 x]
      by (auto simp add: map_modify_def Let_def case_prod_beta)
    from remove_from_book_shrinks [of s previous] st ne have "stuck ?s2 v"
      by (auto simp: stuck_def)
    with add_to_book_grows [of ?s2 x] ne show ?thesis
      unfolding r by (auto simp: stuck_def)
  qed
qed

lemma stuck_run: "map_inv s \<Longrightarrow> stuck s v \<Longrightarrow> stuck (map_run s xs) v"
  unfolding map_run_def
proof (induction xs arbitrary: s)
  case Nil
  then show ?case by simp
next
  case (Cons x xs)
  have "map_inv (map_step s x)" using Cons.prems(1) by (rule map_step_inv)
  moreover have "stuck (map_step s x) v"
    using Cons.prems by (cases x) (simp_all add: stuck_place stuck_modify stuck_cancel)
  ultimately show ?case using Cons.IH by simp
qed

text \<open>Placing at an occupied price stores the order and leaves the index as it was.\<close>

lemma place_occupied_stuck:
  assumes inv: "map_inv s" and ok: "fst (map_place s v)"
    and occ: "price v \<in> fst ` set (if is_bid (amount v) then m_bids s else m_asks s)"
  shows "stuck (snd (map_place s v)) v"
proof -
  from ok have nz: "amount v \<noteq> 0" and fresh: "m_orders s (oid v) = None"
    by (auto simp: map_place_def split: if_splits)
  from inv fresh have nb: "oid v \<notin> snd ` set (m_bids s)" and na: "oid v \<notin> snd ` set (m_asks s)"
    by (auto simp: map_inv_def dest: index_sound_absent)
  from inv have so: "sorted_wrt bid_comp (map fst (m_bids s))" "sorted_wrt ask_comp (map fst (m_asks s))"
    by (simp_all add: map_inv_def)
  have "snd (map_place s v) = s\<lparr>m_orders := (m_orders s)(oid v \<mapsto> v)\<rparr>"
  proof (cases "is_bid (amount v)")
    case True
    with occ so have "emplace bid_comp (m_bids s) (price v) (oid v) = m_bids s"
      by (simp add: emplace_occupied)
    with True nz fresh show ?thesis
      by (simp add: map_place_def add_to_book_def)
  next
    case False
    with occ so have "emplace ask_comp (m_asks s) (price v) (oid v) = m_asks s"
      by (simp add: emplace_occupied)
    with False nz fresh show ?thesis
      by (simp add: map_place_def add_to_book_def)
  qed
  with nb na show ?thesis by (simp add: stuck_def)
qed

text \<open>
  C10. In the ordered-map book, let \<open>place\<close> succeed for an order whose side's index
  already holds an entry at its price, in a state reached from the empty book. Then after
  any further calls, \<open>cancel\<close> of its id returns false, and the id is still in the
  store, with the price and side it was placed with, before and after that \<open>cancel\<close>.
\<close>

theorem unindexed_order_never_cancels:
  assumes ok: "fst (map_place (map_run map_empty pre) v)"
    and occ: "price v \<in> fst ` set (if is_bid (amount v) then m_bids (map_run map_empty pre)
                                    else m_asks (map_run map_empty pre))"
  shows "\<not> fst (map_cancel (map_run (snd (map_place (map_run map_empty pre) v)) post) (oid v)) \<and>
    (\<exists>w. m_orders (map_run (snd (map_place (map_run map_empty pre) v)) post) (oid v) = Some w \<and>
         oid w = oid v \<and> price w = price v \<and> is_bid (amount w) = is_bid (amount v)) \<and>
    (\<exists>w. m_orders (snd (map_cancel (map_run (snd (map_place (map_run map_empty pre) v)) post) (oid v)))
           (oid v) = Some w)"
proof -
  let ?s = "map_run map_empty pre"
  let ?s1 = "snd (map_place ?s v)"
  let ?s2 = "map_run ?s1 post"
  have inv: "map_inv ?s" by (rule map_reachable_inv)
  then have inv1: "map_inv ?s1" by (rule map_place_inv)
  have "stuck ?s1 v" using inv ok occ by (rule place_occupied_stuck)
  with inv1 have st: "stuck ?s2 v" by (rule stuck_run)
  then have f: "\<not> fst (map_cancel ?s2 (oid v))" by (rule stuck_cancel_fails)
  then have "snd (map_cancel ?s2 (oid v)) = ?s2" by (rule map_cancel_fail)
  with st f show ?thesis by (auto simp: stuck_def)
qed

theorem unindexed_order_never_cancels_witness:
  "fst (map_place (map_run map_empty [Place ex_o1]) ex_o2) \<and>
   price ex_o2 \<in> fst ` set (if is_bid (amount ex_o2) then m_bids (map_run map_empty [Place ex_o1])
                                    else m_asks (map_run map_empty [Place ex_o1])) \<and>
   \<not> fst (map_cancel (map_run (snd (map_place (map_run map_empty [Place ex_o1]) ex_o2))
       [Cancel 1, Cancel 2]) (oid ex_o2))"
proof -
  have a: "fst (map_place (map_run map_empty [Place ex_o1]) ex_o2)"
    by (simp add: ex_defs map_defs)
  have b: "price ex_o2 \<in> fst ` set (if is_bid (amount ex_o2) then m_bids (map_run map_empty [Place ex_o1])
                                    else m_asks (map_run map_empty [Place ex_o1]))"
    by (simp add: ex_defs map_defs)
  from a b unindexed_order_never_cancels [OF a b, of "[Cancel 1, Cancel 2]"]
  show ?thesis by blast
qed

section \<open>The sorted-bucket code and its structural description\<close>

lemma swap_update_butlast:
  "butlast ((a @ x # b)[length a := last (a @ x # b)]) =
   a @ (if b = [] then [] else last b # butlast b)"
  by (simp add: butlast_append)

lemma remove_id_loop_eq:
  "i \<le> length xs \<Longrightarrow>
   remove_id_loop xs x i =
     (if x \<in> set (drop i xs) then (True, take i xs @ swap_remove x (drop i xs)) else (False, xs))"
proof (induction xs x i rule: remove_id_loop.induct)
  case (1 xs x i)
  show ?case
  proof (cases "i < length xs")
    case False
    then show ?thesis by (simp add: remove_id_loop.simps)
  next
    case True
    then have d: "drop i xs = xs ! i # drop (Suc i) xs" by (simp add: Cons_nth_drop_Suc)
    show ?thesis
    proof (cases "xs ! i = x")
      case hit: True
      define a where "a = take i xs"
      define b where "b = drop (Suc i) xs"
      have "xs = take i xs @ xs ! i # drop (Suc i) xs"
        by (rule id_take_nth_drop [OF True])
      then have xs: "xs = a @ x # b"
        unfolding a_def b_def hit .
      have len: "length a = i" using True by (simp add: a_def)
      have "butlast (xs[i := last xs]) = a @ (if b = [] then [] else last b # butlast b)"
        using swap_update_butlast [of a x b] unfolding xs [symmetric] len .
      moreover have "drop i xs = x # b" using d hit by (simp add: b_def)
      ultimately show ?thesis
        using True hit by (simp add: remove_id_loop.simps [of xs x i] a_def)
    next
      case miss: False
      from True have "Suc i \<le> length xs" by simp
      from "1.IH" [OF True miss this] True miss d show ?thesis
        by (simp add: remove_id_loop.simps [of xs x i] take_Suc_conv_app_nth)
    qed
  qed
qed

lemma remove_id_from_level_eq:
  "remove_id_from_level l x =
     (if x \<in> set (ids l) then (True, l\<lparr>ids := swap_remove x (ids l)\<rparr>) else (False, l))"
  by (simp add: remove_id_from_level_def remove_id_loop_eq)

lemma set_rotate_last: "ys \<noteq> [] \<Longrightarrow> insert (last ys) (set (butlast ys)) = set ys"
proof -
  assume "ys \<noteq> []"
  then have "set (butlast ys @ [last ys]) = set ys" by simp
  then show ?thesis by simp
qed

lemma distinct_rotate_last:
  "ys \<noteq> [] \<Longrightarrow> distinct ys \<Longrightarrow> last ys \<notin> set (butlast ys) \<and> distinct (butlast ys)"
proof -
  assume "ys \<noteq> []" and d: "distinct ys"
  then have "distinct (butlast ys @ [last ys])" by simp
  then show ?thesis by simp
qed

lemma set_swap_remove: "distinct xs \<Longrightarrow> set (swap_remove x xs) = set xs - {x}"
proof (induction xs)
  case Nil
  then show ?case by simp
next
  case (Cons y xs)
  show ?case
  proof (cases "y = x")
    case True
    with Cons.prems set_rotate_last [of xs] show ?thesis by auto
  next
    case False
    with Cons show ?thesis by auto
  qed
qed

lemma distinct_swap_remove: "distinct xs \<Longrightarrow> distinct (swap_remove x xs)"
proof (induction xs)
  case Nil
  then show ?case by simp
next
  case (Cons y xs)
  show ?case
  proof (cases "y = x")
    case True
    with Cons.prems distinct_rotate_last [of xs] show ?thesis by auto
  next
    case False
    with Cons set_swap_remove [of xs x] show ?thesis by auto
  qed
qed

lemma swap_remove_snoc: "x \<notin> set xs \<Longrightarrow> swap_remove x (xs @ [x]) = xs"
  by (induction xs) auto

lemma swap_remove_absent: "x \<notin> set xs \<Longrightarrow> swap_remove x xs = xs"
  by (induction xs) auto

lemma find_bid_insert_Cons:
  "find_bid_insert (l # ls) p = (if bid_comp (level_price l) p then Suc (find_bid_insert ls p) else 0)"
  by (simp add: find_bid_insert_def lower_bound_def bid_comp_def)

lemma find_ask_insert_Cons:
  "find_ask_insert (l # ls) p = (if ask_comp (level_price l) p then Suc (find_ask_insert ls p) else 0)"
  by (simp add: find_ask_insert_def lower_bound_def ask_comp_def)

lemma place_bid_levels:
  "push_id (fst (ensure_bid_level ls p)) (snd (ensure_bid_level ls p)) x = ins_level bid_comp p x ls"
proof (induction ls)
  case Nil
  then show ?case
    by (simp add: ensure_bid_level_def find_bid_insert_def lower_bound_def vec_insert_def push_id_def)
next
  case (Cons l ls)
  show ?case
  proof (cases "bid_comp (level_price l) p")
    case True
    have "ensure_bid_level (l # ls) p = (l # fst (ensure_bid_level ls p), Suc (snd (ensure_bid_level ls p)))"
      using True by (simp add: ensure_bid_level_def find_bid_insert_Cons Let_def vec_insert_def)
    with True Cons show ?thesis by (simp add: push_id_def)
  next
    case False
    then show ?thesis
      by (simp add: ensure_bid_level_def find_bid_insert_Cons Let_def vec_insert_def push_id_def)
  qed
qed

lemma place_ask_levels:
  "push_id (fst (ensure_ask_level ls p)) (snd (ensure_ask_level ls p)) x = ins_level ask_comp p x ls"
proof (induction ls)
  case Nil
  then show ?case
    by (simp add: ensure_ask_level_def find_ask_insert_def lower_bound_def vec_insert_def push_id_def)
next
  case (Cons l ls)
  show ?case
  proof (cases "ask_comp (level_price l) p")
    case True
    have "ensure_ask_level (l # ls) p = (l # fst (ensure_ask_level ls p), Suc (snd (ensure_ask_level ls p)))"
      using True by (simp add: ensure_ask_level_def find_ask_insert_Cons Let_def vec_insert_def)
    with True Cons show ?thesis by (simp add: push_id_def)
  next
    case False
    then show ?thesis
      by (simp add: ensure_ask_level_def find_ask_insert_Cons Let_def vec_insert_def push_id_def)
  qed
qed

lemma cancel_in_levels_Suc:
  "cancel_in_levels (l # ls) (Suc it) x = map_option (Cons l) (cancel_in_levels ls it x)"
  by (simp add: cancel_in_levels_def vec_erase_def remove_id_from_level_eq)

lemma cancel_bid_levels:
  "cancel_in_levels ls (find_bid_level ls p) x = del_level bid_comp p x ls"
proof (induction ls)
  case Nil
  then show ?case by (simp add: cancel_in_levels_def find_bid_level_def find_bid_insert_def lower_bound_def)
next
  case (Cons l ls)
  show ?case
  proof (cases "bid_comp (level_price l) p")
    case True
    have "find_bid_level (l # ls) p = Suc (find_bid_level ls p)"
      using True by (simp add: find_bid_level_def find_bid_insert_Cons Let_def)
    with True Cons show ?thesis by (simp add: cancel_in_levels_Suc)
  next
    case False
    then show ?thesis
      by (simp add: find_bid_level_def find_bid_insert_Cons Let_def cancel_in_levels_def
          remove_id_from_level_eq vec_erase_def)
  qed
qed

lemma cancel_ask_levels:
  "cancel_in_levels ls (find_ask_level ls p) x = del_level ask_comp p x ls"
proof (induction ls)
  case Nil
  then show ?case by (simp add: cancel_in_levels_def find_ask_level_def find_ask_insert_def lower_bound_def)
next
  case (Cons l ls)
  show ?case
  proof (cases "ask_comp (level_price l) p")
    case True
    have "find_ask_level (l # ls) p = Suc (find_ask_level ls p)"
      using True by (simp add: find_ask_level_def find_ask_insert_Cons Let_def)
    with True Cons show ?thesis by (simp add: cancel_in_levels_Suc)
  next
    case False
    then show ?thesis
      by (simp add: find_ask_level_def find_ask_insert_Cons Let_def cancel_in_levels_def
          remove_id_from_level_eq vec_erase_def)
  qed
qed

section \<open>Well-formed level sequences\<close>

lemma level_pairs_simps [simp]:
  "level_pairs [] = []"
  "level_pairs (l # ls) = map (Pair (level_price l)) (ids l) @ level_pairs ls"
  by (simp_all add: level_pairs_def)

lemma mem_level_pairs:
  "(p, i) \<in> set (level_pairs ls) \<longleftrightarrow> (\<exists>l \<in> set ls. level_price l = p \<and> i \<in> set (ids l))"
  by (induction ls) auto

lemma ids_level_pairs: "snd ` set (level_pairs ls) = set (concat (map ids ls))"
  by (induction ls) (auto simp: image_Un image_image)

lemma prices_level_pairs: "fst ` set (level_pairs ls) \<subseteq> level_price ` set ls"
  by (induction ls) auto

lemma set_level_pairs_ins:
  "set (level_pairs (ins_level cmp p x ls)) = insert (p, x) (set (level_pairs ls))"
  by (induction ls) auto

lemma prices_ins: "level_price ` set (ins_level cmp p x ls) = insert p (level_price ` set ls)"
  by (induction ls) auto

lemma nonempty_ins:
  "\<forall>l \<in> set ls. ids l \<noteq> [] \<Longrightarrow> \<forall>l \<in> set (ins_level cmp p x ls). ids l \<noteq> []"
  by (induction ls) auto

lemma ids_ins: "set (concat (map ids (ins_level cmp p x ls))) = insert x (set (concat (map ids ls)))"
  by (induction ls) auto

lemma distinct_ins:
  "distinct (concat (map ids ls)) \<Longrightarrow> x \<notin> set (concat (map ids ls)) \<Longrightarrow>
   distinct (concat (map ids (ins_level cmp p x ls)))"
proof (induction ls)
  case Nil
  then show ?case by simp
next
  case (Cons l ls)
  then show ?case using ids_ins [of cmp p x ls] by auto
qed

lemma sorted_ins:
  assumes ko: "key_order cmp"
  shows "sorted_wrt cmp (map level_price ls) \<Longrightarrow> sorted_wrt cmp (map level_price (ins_level cmp p x ls))"
proof (induction ls)
  case Nil
  then show ?case by simp
next
  case (Cons l ls)
  show ?case
  proof (cases "cmp (level_price l) p")
    case True
    with Cons prices_ins [of cmp p x ls] show ?thesis by auto
  next
    case False
    show ?thesis
    proof (cases "level_price l = p")
      case True
      with False Cons.prems show ?thesis by simp
    next
      case ne: False
      with False have c: "cmp p (level_price l)"
        using key_order_cases(3) [OF ko, of p "level_price l"] by auto
      with Cons.prems have "\<forall>l' \<in> set ls. cmp p (level_price l')"
        using key_order_cases(2) [OF ko] by auto
      with c False ne Cons.prems show ?thesis by simp
    qed
  qed
qed

lemma levels_ok_ins:
  "key_order cmp \<Longrightarrow> levels_ok cmp ls \<Longrightarrow> x \<notin> snd ` set (level_pairs ls) \<Longrightarrow>
   levels_ok cmp (ins_level cmp p x ls)"
  using nonempty_ins [of ls cmp p x]
  by (simp add: levels_ok_def sorted_ins distinct_ins ids_level_pairs)

text \<open>Deleting from a well-formed level sequence.\<close>

lemma del_level_Some:
  assumes ko: "key_order cmp"
  shows "levels_ok cmp ls \<Longrightarrow> del_level cmp p x ls = Some ls' \<Longrightarrow>
    levels_ok cmp ls' \<and> set (level_pairs ls') = set (level_pairs ls) - {(p, x)} \<and>
    (p, x) \<in> set (level_pairs ls) \<and> level_price ` set ls' \<subseteq> level_price ` set ls"
proof (induction ls arbitrary: ls')
  case Nil
  then show ?case by simp
next
  case (Cons l ls)
  from Cons.prems(1) have ok: "levels_ok cmp ls" and dl: "distinct (ids l)"
    and ne: "ids l \<noteq> []" and dj: "set (ids l) \<inter> set (concat (map ids ls)) = {}"
    and so: "\<forall>l' \<in> set ls. cmp (level_price l) (level_price l')"
    by (auto simp: levels_ok_def)
  show ?case
  proof (cases "cmp (level_price l) p")
    case True
    with Cons.prems(2) obtain r where r: "del_level cmp p x ls = Some r" and ls': "ls' = l # r"
      by auto
    from Cons.IH [OF ok r] have ih: "levels_ok cmp r" "set (level_pairs r) = set (level_pairs ls) - {(p, x)}"
      "(p, x) \<in> set (level_pairs ls)" "level_price ` set r \<subseteq> level_price ` set ls"
      by simp_all
    from True have pne: "level_price l \<noteq> p" using key_order_cases(1) [OF ko, of p] by auto
    have "snd ` set (level_pairs r) \<subseteq> snd ` set (level_pairs ls)"
      unfolding ih(2) by auto
    then have "set (concat (map ids r)) \<subseteq> set (concat (map ids ls))"
      unfolding ids_level_pairs .
    with dj have d1: "set (ids l) \<inter> set (concat (map ids r)) = {}" by blast
    have s1: "\<forall>l' \<in> set r. cmp (level_price l) (level_price l')"
    proof
      fix l' assume "l' \<in> set r"
      with ih(4) have "level_price l' \<in> level_price ` set ls" by auto
      then obtain l2 where "l2 \<in> set ls" "level_price l2 = level_price l'" by auto
      with so show "cmp (level_price l) (level_price l')" by force
    qed
    from ih(1) dl ne d1 s1 have "levels_ok cmp (l # r)"
      by (simp add: levels_ok_def)
    moreover have "set (level_pairs (l # r)) = set (level_pairs (l # ls)) - {(p, x)}"
      using ih(2) pne by auto
    ultimately show ?thesis using ih(3,4) ls' by auto
  next
    case False
    with Cons.prems(2) have pl: "level_price l = p" and xin: "x \<in> set (ids l)"
      and ls': "ls' = (if swap_remove x (ids l) = [] then ls else l\<lparr>ids := swap_remove x (ids l)\<rparr> # ls)"
      by (auto split: if_splits)
    have nop: "\<forall>l' \<in> set ls. level_price l' \<noteq> p"
      using so pl key_order_cases(1) [OF ko] by auto
    then have nopairs: "\<And>i. (p, i) \<notin> set (level_pairs ls)" by (auto simp: mem_level_pairs)
    have ss: "set (swap_remove x (ids l)) = set (ids l) - {x}" using dl by (rule set_swap_remove)
    have ds: "distinct (swap_remove x (ids l))" using dl by (rule distinct_swap_remove)
    show ?thesis
    proof (cases "swap_remove x (ids l) = []")
      case True
      with ss xin have "set (ids l) = {x}" by auto
      with True ls' ok pl nopairs show ?thesis by auto
    next
      case False
      have "levels_ok cmp (l\<lparr>ids := swap_remove x (ids l)\<rparr> # ls)"
        using ok so ds False ss dj Cons.prems(1) by (auto simp: levels_ok_def)
      moreover have "set (level_pairs (l\<lparr>ids := swap_remove x (ids l)\<rparr> # ls)) = set (level_pairs (l # ls)) - {(p, x)}"
        using ss pl nopairs by auto
      ultimately show ?thesis using False ls' xin pl by auto
    qed
  qed
qed

lemma del_level_None:
  assumes ko: "key_order cmp"
  shows "sorted_wrt cmp (map level_price ls) \<Longrightarrow> del_level cmp p x ls = None \<Longrightarrow>
    (p, x) \<notin> set (level_pairs ls)"
proof (induction ls)
  case Nil
  then show ?case by simp
next
  case (Cons l ls)
  show ?case
  proof (cases "cmp (level_price l) p")
    case True
    then have "level_price l \<noteq> p" using key_order_cases(1) [OF ko, of p] by auto
    with True Cons show ?thesis by auto
  next
    case False
    have "\<forall>l' \<in> set ls. level_price l' \<noteq> p"
    proof
      fix l' assume "l' \<in> set ls"
      with Cons.prems(1) have "cmp (level_price l) (level_price l')" by simp
      with False show "level_price l' \<noteq> p" by auto
    qed
    then have "\<And>i. (p, i) \<notin> set (level_pairs ls)" by (auto simp: mem_level_pairs)
    with False Cons.prems(2) show ?thesis by (auto split: if_splits)
  qed
qed

lemma del_ins:
  "key_order cmp \<Longrightarrow> \<forall>l \<in> set ls. ids l \<noteq> [] \<Longrightarrow> x \<notin> set (concat (map ids ls)) \<Longrightarrow>
   del_level cmp p x (ins_level cmp p x ls) = Some ls"
proof (induction ls)
  case Nil
  then show ?case using key_order_cases(1) [of cmp p] by simp
next
  case (Cons l ls)
  then show ?case using key_order_cases(1) [of cmp p] by (auto simp: swap_remove_snoc)
qed

lemma ins_del:
  assumes ko: "key_order cmp"
  shows "sorted_wrt cmp (map level_price ls) \<Longrightarrow> del_level cmp p x ls = Some ls' \<Longrightarrow>
    ins_level cmp p x ls' =
      map (\<lambda>l. if level_price l = p then l\<lparr>ids := swap_remove x (ids l) @ [x]\<rparr> else l) ls"
proof (induction ls arbitrary: ls')
  case Nil
  then show ?case by simp
next
  case (Cons l ls)
  let ?f = "\<lambda>l. if level_price l = p then l\<lparr>ids := swap_remove x (ids l) @ [x]\<rparr> else l"
  from Cons.prems(1) have so: "\<forall>l' \<in> set ls. cmp (level_price l) (level_price l')"
    and so': "sorted_wrt cmp (map level_price ls)" by simp_all
  show ?case
  proof (cases "cmp (level_price l) p")
    case True
    with Cons.prems(2) obtain r where r: "del_level cmp p x ls = Some r" and ls': "ls' = l # r"
      by auto
    from True have "level_price l \<noteq> p" using key_order_cases(1) [OF ko, of p] by auto
    with Cons.IH [OF so' r] True ls' show ?thesis by simp
  next
    case False
    with Cons.prems(2) have pl: "level_price l = p" and xin: "x \<in> set (ids l)"
      and ls': "ls' = (if swap_remove x (ids l) = [] then ls else l\<lparr>ids := swap_remove x (ids l)\<rparr> # ls)"
      by (auto split: if_splits)
    have nop: "\<forall>l' \<in> set ls. level_price l' \<noteq> p"
      using so pl key_order_cases(1) [OF ko] by auto
    then have same: "map ?f ls = ls" by (induction ls) auto
    have np: "\<not> cmp p p" using key_order_cases(1) [OF ko, of p] by auto
    show ?thesis
    proof (cases "swap_remove x (ids l) = []")
      case True
      have "ins_level cmp p x ls = \<lparr>level_price = p, ids = [x]\<rparr> # ls"
      proof (cases ls)
        case Nil
        then show ?thesis by simp
      next
        case (Cons l2 ls2)
        with so pl have "cmp p (level_price l2)" by auto
        then have "\<not> cmp (level_price l2) p" "level_price l2 \<noteq> p"
          using key_order_cases(4) [OF ko] np by auto
        with Cons show ?thesis by simp
      qed
      with True ls' pl same show ?thesis by simp
    next
      case False
      with ls' pl same np show ?thesis by simp
    qed
  qed
qed

section \<open>The sorted-bucket book keeps store and indexes in agreement\<close>

lemma vec_place_eq:
  "vec_place s v =
     (if amount v = 0 \<or> orders s (oid v) \<noteq> None then (False, s)
      else if is_bid (amount v)
      then (True, s\<lparr>bids := ins_level bid_comp (price v) (oid v) (bids s),
                     orders := (orders s)(oid v \<mapsto> v)\<rparr>)
      else (True, s\<lparr>asks := ins_level ask_comp (price v) (oid v) (asks s),
                     orders := (orders s)(oid v \<mapsto> v)\<rparr>))"
  by (simp add: vec_place_def Let_def case_prod_beta place_bid_levels place_ask_levels)

lemma vec_cancel_eq:
  "vec_cancel s i =
     (case orders s i of
        None \<Rightarrow> (False, s)
      | Some c \<Rightarrow>
          if is_bid (amount c)
          then (case del_level bid_comp (price c) i (bids s) of
                  None \<Rightarrow> (False, s)
                | Some ls \<Rightarrow> (True, s\<lparr>bids := ls, orders := (orders s)(i := None)\<rparr>))
          else (case del_level ask_comp (price c) i (asks s) of
                  None \<Rightarrow> (False, s)
                | Some ls \<Rightarrow> (True, s\<lparr>asks := ls, orders := (orders s)(i := None)\<rparr>)))"
  by (simp add: vec_cancel_def cancel_bid_levels cancel_ask_levels split: option.splits)

lemma vec_inv_empty: "vec_inv vec_empty"
  by (simp add: vec_inv_def vec_empty_def levels_ok_def index_sound_def store_ok_def store_indexed_def)

lemma index_sound_insert:
  "index_sound os side b \<Longrightarrow> i \<notin> snd ` set b \<Longrightarrow> is_bid (amount v) = side \<Longrightarrow>
   set b' = insert (price v, i) (set b) \<Longrightarrow> index_sound (os(i \<mapsto> v)) side b'"
  by (force simp: index_sound_def)

lemma index_sound_remove:
  assumes "index_sound os side b" and "os i = Some c" and "set b' = set b - {(price c, i)}"
  shows "index_sound (os(i := None)) side b' \<and> i \<notin> snd ` set b'"
proof -
  have "i \<notin> snd ` set b'"
  proof
    assume "i \<in> snd ` set b'"
    then obtain p where p: "(p, i) \<in> set b'" by auto
    with assms(3) have "(p, i) \<in> set b" by simp
    with assms(1,2) have "p = price c" by (auto simp: index_sound_def)
    with p assms(3) show False by simp
  qed
  moreover have "index_sound os side b'"
    using assms(1,3) by (auto simp: index_sound_def)
  ultimately show ?thesis by (simp add: index_sound_not_in)
qed

lemma vec_place_inv: "vec_inv s \<Longrightarrow> vec_inv (snd (vec_place s v))"
proof (cases "fst (vec_place s v)")
  case False
  assume "vec_inv s"
  with False show ?thesis by (simp add: vec_place_fail)
next
  case True
  assume inv: "vec_inv s"
  from True have nz: "amount v \<noteq> 0" and fresh: "orders s (oid v) = None"
    by (auto simp: vec_place_eq split: if_splits)
  from inv fresh have nb: "oid v \<notin> snd ` set (level_pairs (bids s))"
    and na: "oid v \<notin> snd ` set (level_pairs (asks s))"
    by (auto simp: vec_inv_def dest: index_sound_absent)
  from inv have st: "store_ok ((orders s)(oid v \<mapsto> v))"
    using nz by (auto simp: vec_inv_def store_ok_def)
  show ?thesis
  proof (cases "is_bid (amount v)")
    case bid: True
    let ?b = "ins_level bid_comp (price v) (oid v) (bids s)"
    have r: "snd (vec_place s v) = s\<lparr>bids := ?b, orders := (orders s)(oid v \<mapsto> v)\<rparr>"
      using nz fresh bid by (simp add: vec_place_eq)
    have 1: "levels_ok bid_comp ?b"
      using inv nb by (simp add: vec_inv_def levels_ok_ins)
    have 2: "index_sound ((orders s)(oid v \<mapsto> v)) True (level_pairs ?b)"
      using inv nb bid by (intro index_sound_insert [where b = "level_pairs (bids s)"])
        (simp_all add: vec_inv_def set_level_pairs_ins)
    have 3: "index_sound ((orders s)(oid v \<mapsto> v)) False (level_pairs (asks s))"
      using inv na by (simp add: vec_inv_def index_sound_not_in)
    have 4: "store_indexed ((orders s)(oid v \<mapsto> v)) (level_pairs ?b) (level_pairs (asks s))"
      using inv bid by (auto simp: vec_inv_def store_indexed_def set_level_pairs_ins)
    from inv 1 2 3 4 st show ?thesis unfolding r by (simp add: vec_inv_def)
  next
    case ask: False
    let ?a = "ins_level ask_comp (price v) (oid v) (asks s)"
    have r: "snd (vec_place s v) = s\<lparr>asks := ?a, orders := (orders s)(oid v \<mapsto> v)\<rparr>"
      using nz fresh ask by (simp add: vec_place_eq)
    have 1: "levels_ok ask_comp ?a"
      using inv na by (simp add: vec_inv_def levels_ok_ins)
    have 2: "index_sound ((orders s)(oid v \<mapsto> v)) False (level_pairs ?a)"
      using inv na ask by (intro index_sound_insert [where b = "level_pairs (asks s)"])
        (simp_all add: vec_inv_def set_level_pairs_ins)
    have 3: "index_sound ((orders s)(oid v \<mapsto> v)) True (level_pairs (bids s))"
      using inv nb by (simp add: vec_inv_def index_sound_not_in)
    have 4: "store_indexed ((orders s)(oid v \<mapsto> v)) (level_pairs (bids s)) (level_pairs ?a)"
      using inv ask by (auto simp: vec_inv_def store_indexed_def set_level_pairs_ins)
    from inv 1 2 3 4 st show ?thesis unfolding r by (simp add: vec_inv_def)
  qed
qed

text \<open>In a well-formed book the level of every stored order is found and holds its id.\<close>

lemma vec_cancel_active:
  assumes inv: "vec_inv s" and c: "orders s i = Some c"
  shows "fst (vec_cancel s i)"
proof (cases "is_bid (amount c)")
  case True
  from inv c True have "(price c, i) \<in> set (level_pairs (bids s))"
    by (auto simp: vec_inv_def store_indexed_def)
  moreover from inv have "sorted_wrt bid_comp (map level_price (bids s))"
    by (simp add: vec_inv_def levels_ok_def)
  ultimately have "del_level bid_comp (price c) i (bids s) \<noteq> None"
    using del_level_None [of bid_comp "bids s" "price c" i] by auto
  with c True show ?thesis by (auto simp: vec_cancel_eq)
next
  case False
  from inv c False have "(price c, i) \<in> set (level_pairs (asks s))"
    by (auto simp: vec_inv_def store_indexed_def)
  moreover from inv have "sorted_wrt ask_comp (map level_price (asks s))"
    by (simp add: vec_inv_def levels_ok_def)
  ultimately have "del_level ask_comp (price c) i (asks s) \<noteq> None"
    using del_level_None [of ask_comp "asks s" "price c" i] by auto
  with c False show ?thesis by (auto simp: vec_cancel_eq)
qed

lemma vec_cancel_ok:
  assumes inv: "vec_inv s" and ok: "fst (vec_cancel s i)"
  shows "vec_inv (snd (vec_cancel s i)) \<and>
    orders (snd (vec_cancel s i)) = (orders s)(i := None) \<and>
    i \<notin> snd ` set (level_pairs (bids (snd (vec_cancel s i)))) \<and>
    i \<notin> snd ` set (level_pairs (asks (snd (vec_cancel s i))))"
proof -
  from ok obtain c where c: "orders s i = Some c"
    by (auto simp: vec_cancel_eq split: option.splits)
  from inv have st: "store_ok ((orders s)(i := None))"
    by (auto simp: vec_inv_def store_ok_def)
  show ?thesis
  proof (cases "is_bid (amount c)")
    case True
    with ok c obtain ls where d: "del_level bid_comp (price c) i (bids s) = Some ls"
      and r: "snd (vec_cancel s i) = s\<lparr>bids := ls, orders := (orders s)(i := None)\<rparr>"
      by (auto simp: vec_cancel_eq split: option.splits)
    from inv have "levels_ok bid_comp (bids s)" by (simp add: vec_inv_def)
    from del_level_Some [OF key_order_bid this d]
    have 1: "levels_ok bid_comp ls"
      and ps: "set (level_pairs ls) = set (level_pairs (bids s)) - {(price c, i)}" by simp_all
    from inv have "index_sound (orders s) True (level_pairs (bids s))" by (simp add: vec_inv_def)
    from index_sound_remove [OF this c ps]
    have 2: "index_sound ((orders s)(i := None)) True (level_pairs ls)"
      and nb: "i \<notin> snd ` set (level_pairs ls)" by simp_all
    from inv c True have na: "i \<notin> snd ` set (level_pairs (asks s))"
      using index_sound_other_side [of "orders s" False "level_pairs (asks s)" i c]
      by (simp add: vec_inv_def)
    with inv have 3: "index_sound ((orders s)(i := None)) False (level_pairs (asks s))"
      by (simp add: vec_inv_def index_sound_not_in)
    have 4: "store_indexed ((orders s)(i := None)) (level_pairs ls) (level_pairs (asks s))"
      using inv ps by (auto simp: vec_inv_def store_indexed_def store_ok_def)
    from inv 1 2 3 4 st nb na show ?thesis unfolding r by (simp add: vec_inv_def)
  next
    case False
    with ok c obtain ls where d: "del_level ask_comp (price c) i (asks s) = Some ls"
      and r: "snd (vec_cancel s i) = s\<lparr>asks := ls, orders := (orders s)(i := None)\<rparr>"
      by (auto simp: vec_cancel_eq split: option.splits)
    from inv have "levels_ok ask_comp (asks s)" by (simp add: vec_inv_def)
    from del_level_Some [OF key_order_ask this d]
    have 1: "levels_ok ask_comp ls"
      and ps: "set (level_pairs ls) = set (level_pairs (asks s)) - {(price c, i)}" by simp_all
    from inv have "index_sound (orders s) False (level_pairs (asks s))" by (simp add: vec_inv_def)
    from index_sound_remove [OF this c ps]
    have 2: "index_sound ((orders s)(i := None)) False (level_pairs ls)"
      and na: "i \<notin> snd ` set (level_pairs ls)" by simp_all
    from inv c False have nb: "i \<notin> snd ` set (level_pairs (bids s))"
      using index_sound_other_side [of "orders s" True "level_pairs (bids s)" i c]
      by (simp add: vec_inv_def)
    with inv have 3: "index_sound ((orders s)(i := None)) True (level_pairs (bids s))"
      by (simp add: vec_inv_def index_sound_not_in)
    have 4: "store_indexed ((orders s)(i := None)) (level_pairs (bids s)) (level_pairs ls)"
      using inv ps by (auto simp: vec_inv_def store_indexed_def store_ok_def)
    from inv 1 2 3 4 st nb na show ?thesis unfolding r by (simp add: vec_inv_def)
  qed
qed

lemma vec_cancel_inv: "vec_inv s \<Longrightarrow> vec_inv (snd (vec_cancel s i))"
  using vec_cancel_ok [of s i] vec_cancel_fail [of s i] by (cases "fst (vec_cancel s i)") simp_all

lemma vec_modify_inv: "vec_inv s \<Longrightarrow> vec_inv (snd (vec_modify s v))"
  by (simp add: vec_modify_def Let_def case_prod_beta vec_cancel_inv vec_place_inv)

lemma vec_step_inv: "vec_inv s \<Longrightarrow> vec_inv (vec_step s x)"
  by (cases x) (simp_all add: vec_place_inv vec_modify_inv vec_cancel_inv)

lemma vec_run_inv: "vec_inv s \<Longrightarrow> vec_inv (vec_run s xs)"
  unfolding vec_run_def by (induction xs arbitrary: s) (simp_all add: vec_step_inv)

lemma vec_reachable_inv: "vec_inv (vec_run vec_empty xs)"
  by (rule vec_run_inv [OF vec_inv_empty])

lemma best_from_levels_None:
  assumes "\<forall>l \<in> set ls. ids l \<noteq> []" and "index_sound os side (level_pairs ls)"
  shows "best_from_levels os ls = None \<longleftrightarrow> ls = []"
proof (cases ls)
  case Nil
  then show ?thesis by (simp add: best_from_levels_def)
next
  case (Cons l rest)
  with assms(1) obtain i more_ids where i: "ids l = i # more_ids" by (cases "ids l") auto
  with Cons assms(2) have "os i \<noteq> None" by (auto simp: index_sound_def)
  with Cons i show ?thesis by (simp add: best_from_levels_def)
qed

text \<open>
  C9. In every state of the sorted-bucket book reached from the empty book by
  \<open>place\<close>, \<open>modify\<close> and \<open>cancel\<close> calls, every level of the bid and of the ask
  sequence holds at least one id, and \<open>best_bid\<close> (\<open>best_ask\<close>) returns none exactly
  when the bid (ask) sequence has no level.
\<close>

theorem no_empty_level:
  "(\<forall>l \<in> set (bids (vec_run vec_empty xs)) \<union> set (asks (vec_run vec_empty xs)). ids l \<noteq> []) \<and>
   (vec_best_bid (vec_run vec_empty xs) = None \<longleftrightarrow> bids (vec_run vec_empty xs) = []) \<and>
   (vec_best_ask (vec_run vec_empty xs) = None \<longleftrightarrow> asks (vec_run vec_empty xs) = [])"
proof -
  have inv: "vec_inv (vec_run vec_empty xs)" by (rule vec_reachable_inv)
  then have ne: "\<forall>l \<in> set (bids (vec_run vec_empty xs)). ids l \<noteq> []"
    "\<forall>l \<in> set (asks (vec_run vec_empty xs)). ids l \<noteq> []"
    by (simp_all add: vec_inv_def levels_ok_def)
  from inv have so: "index_sound (orders (vec_run vec_empty xs)) True (level_pairs (bids (vec_run vec_empty xs)))"
    "index_sound (orders (vec_run vec_empty xs)) False (level_pairs (asks (vec_run vec_empty xs)))"
    by (simp_all add: vec_inv_def)
  from ne so show ?thesis
    by (auto simp: vec_best_bid_def vec_best_ask_def best_from_levels_None)
qed

theorem no_empty_level_witness:
  "\<lparr>level_price = 100, ids = [1]\<rparr> \<in> set (bids (vec_run vec_empty [Place ex_o1, Place ex_o2, Cancel 2])) \<and>
   ids \<lparr>level_price = 100, ids = [1::ident]\<rparr> \<noteq> [] \<and>
   vec_best_bid (vec_run vec_empty [Place ex_o1, Place ex_o2, Cancel 2]) \<noteq> None \<and>
   asks (vec_run vec_empty [Place ex_o1, Place ex_o2, Cancel 2]) = [] \<and>
   vec_best_ask (vec_run vec_empty [Place ex_o1, Place ex_o2, Cancel 2]) = None"
proof -
  have a: "bids (vec_run vec_empty [Place ex_o1, Place ex_o2, Cancel 2]) = [\<lparr>level_price = 100, ids = [1]\<rparr>]"
    by (simp add: ex_defs vec_place_eq vec_cancel_eq is_bid_def bid_comp_def)
  have b: "asks (vec_run vec_empty [Place ex_o1, Place ex_o2, Cancel 2]) = []"
    by (simp add: ex_defs vec_place_eq vec_cancel_eq is_bid_def bid_comp_def)
  from a b no_empty_level [of "[Place ex_o1, Place ex_o2, Cancel 2]"]
  show ?thesis by simp
qed

section \<open>Cancellation\<close>

lemma map_cancel_inactive: "m_orders s i = None \<Longrightarrow> \<not> fst (map_cancel s i)"
  by (simp add: map_cancel_def)

lemma vec_cancel_inactive: "orders s i = None \<Longrightarrow> \<not> fst (vec_cancel s i)"
  by (simp add: vec_cancel_def)

lemma map_cancel_ok:
  assumes inv: "map_inv s" and ok: "fst (map_cancel s i)"
  shows "m_orders (snd (map_cancel s i)) = (m_orders s)(i := None) \<and>
    i \<notin> snd ` set (m_bids (snd (map_cancel s i))) \<and>
    i \<notin> snd ` set (m_asks (snd (map_cancel s i)))"
proof -
  from ok obtain v where v: "m_orders s i = Some v" and r: "fst (remove_from_book s v)"
    by (auto simp: map_cancel_def Let_def case_prod_beta split: option.splits if_splits)
  let ?s1 = "snd (remove_from_book s v)"
  from remove_from_book_inv [OF inv v r]
  have "i \<notin> snd ` set (m_bids ?s1)" "i \<notin> snd ` set (m_asks ?s1)" "m_orders ?s1 = m_orders s"
    by simp_all
  with v r show ?thesis by (simp add: map_cancel_def Let_def case_prod_beta)
qed

text \<open>
  C5. In every reachable state of either book: \<open>cancel\<close> of an id that is not active
  returns false; after a \<open>cancel\<close> that returns true the id is gone from the store (which
  is otherwise unchanged) and from both price indexes; and a \<open>cancel\<close> that returns false
  leaves the store as it was.
\<close>

theorem cancel_removes_or_keeps:
  "(m_orders (map_run map_empty xs) i = None \<longrightarrow> \<not> fst (map_cancel (map_run map_empty xs) i)) \<and>
   (fst (map_cancel (map_run map_empty xs) i) \<longrightarrow>
      m_orders (snd (map_cancel (map_run map_empty xs) i)) = (m_orders (map_run map_empty xs))(i := None) \<and>
      i \<notin> snd ` set (m_bids (snd (map_cancel (map_run map_empty xs) i))) \<and>
      i \<notin> snd ` set (m_asks (snd (map_cancel (map_run map_empty xs) i)))) \<and>
   (\<not> fst (map_cancel (map_run map_empty xs) i) \<longrightarrow>
      m_orders (snd (map_cancel (map_run map_empty xs) i)) = m_orders (map_run map_empty xs)) \<and>
   (orders (vec_run vec_empty ys) i = None \<longrightarrow> \<not> fst (vec_cancel (vec_run vec_empty ys) i)) \<and>
   (fst (vec_cancel (vec_run vec_empty ys) i) \<longrightarrow>
      orders (snd (vec_cancel (vec_run vec_empty ys) i)) = (orders (vec_run vec_empty ys))(i := None) \<and>
      i \<notin> set (concat (map ids (bids (snd (vec_cancel (vec_run vec_empty ys) i))))) \<and>
      i \<notin> set (concat (map ids (asks (snd (vec_cancel (vec_run vec_empty ys) i)))))) \<and>
   (\<not> fst (vec_cancel (vec_run vec_empty ys) i) \<longrightarrow>
      orders (snd (vec_cancel (vec_run vec_empty ys) i)) = orders (vec_run vec_empty ys))"
proof -
  have m: "map_inv (map_run map_empty xs)" by (rule map_reachable_inv)
  have v: "vec_inv (vec_run vec_empty ys)" by (rule vec_reachable_inv)
  show ?thesis
    using map_cancel_inactive [of "map_run map_empty xs" i] map_cancel_ok [OF m, of i]
      map_cancel_fail [of "map_run map_empty xs" i]
      vec_cancel_inactive [of "vec_run vec_empty ys" i] vec_cancel_ok [OF v, of i]
      vec_cancel_fail [of "vec_run vec_empty ys" i]
    by (simp add: ids_level_pairs)
qed

theorem cancel_removes_or_keeps_witness:
  "fst (map_cancel (map_run map_empty [Place ex_o1]) 1) \<and>
   m_orders (snd (map_cancel (map_run map_empty [Place ex_o1]) 1)) 1 = None \<and>
   1 \<notin> snd ` set (m_bids (snd (map_cancel (map_run map_empty [Place ex_o1]) 1))) \<and>
   fst (vec_cancel (vec_run vec_empty [Place ex_o1]) 1) \<and>
   orders (snd (vec_cancel (vec_run vec_empty [Place ex_o1]) 1)) 1 = None \<and>
   1 \<notin> set (concat (map ids (bids (snd (vec_cancel (vec_run vec_empty [Place ex_o1]) 1))))) \<and>
   m_orders (map_run map_empty [Place ex_o1]) 2 = None \<and>
   \<not> fst (map_cancel (map_run map_empty [Place ex_o1]) 2) \<and>
   m_orders (snd (map_cancel (map_run map_empty [Place ex_o1]) 2)) = m_orders (map_run map_empty [Place ex_o1]) \<and>
   orders (vec_run vec_empty [Place ex_o1]) 2 = None \<and>
   \<not> fst (vec_cancel (vec_run vec_empty [Place ex_o1]) 2) \<and>
   orders (snd (vec_cancel (vec_run vec_empty [Place ex_o1]) 2)) = orders (vec_run vec_empty [Place ex_o1])"
proof -
  have a: "fst (map_cancel (map_run map_empty [Place ex_o1]) 1)"
    by (simp add: ex_defs map_defs)
  have b: "fst (vec_cancel (vec_run vec_empty [Place ex_o1]) 1)"
    by (simp add: ex_defs vec_place_eq vec_cancel_eq is_bid_def bid_comp_def)
  have c: "m_orders (map_run map_empty [Place ex_o1]) 2 = None"
    by (simp add: ex_defs map_defs)
  have d: "orders (vec_run vec_empty [Place ex_o1]) 2 = None"
    by (simp add: ex_defs vec_place_eq is_bid_def bid_comp_def)
  from a b c d
    cancel_removes_or_keeps [of "[Place ex_o1]" 1 "[Place ex_o1]"]
    cancel_removes_or_keeps [of "[Place ex_o1]" 2 "[Place ex_o1]"]
  show ?thesis by simp
qed

section \<open>Zero amounts\<close>

text \<open>
  C7. In both books and in every state, \<open>modify\<close> with an order of amount 0 returns the
  same result and the same final state as \<open>cancel\<close> of its id, whatever its price; and
  in no state reached from the empty book does the store hold an order of amount 0.
\<close>

theorem modify_zero_is_cancel:
  "map_modify s \<lparr>oid = i, price = p, amount = 0\<rparr> = map_cancel s i \<and>
   vec_modify t \<lparr>oid = i, price = p, amount = 0\<rparr> = vec_cancel t i \<and>
   (m_orders (map_run map_empty xs) j = Some w \<longrightarrow> amount w \<noteq> 0) \<and>
   (orders (vec_run vec_empty ys) j = Some w \<longrightarrow> amount w \<noteq> 0)"
proof -
  have "store_ok (m_orders (map_run map_empty xs))"
    using map_reachable_inv [of xs] by (simp add: map_inv_def)
  moreover have "store_ok (orders (vec_run vec_empty ys))"
    using vec_reachable_inv [of ys] by (simp add: vec_inv_def)
  ultimately show ?thesis
    by (simp add: map_modify_def vec_modify_def store_ok_def)
qed

theorem modify_zero_is_cancel_witness:
  "m_orders (map_run map_empty [Place ex_o1, Modify \<lparr>oid = 2, price = 7, amount = 0\<rparr>]) 1 = Some ex_o1 \<and>
   orders (vec_run vec_empty [Place ex_o1, Modify \<lparr>oid = 2, price = 7, amount = 0\<rparr>]) 1 = Some ex_o1 \<and>
   amount ex_o1 \<noteq> 0 \<and>
   map_modify ex_mbook \<lparr>oid = 1, price = 7, amount = 0\<rparr> = map_cancel ex_mbook 1 \<and>
   vec_modify ex_vbook \<lparr>oid = 1, price = 7, amount = 0\<rparr> = vec_cancel ex_vbook 1"
proof -
  have a: "m_orders (map_run map_empty [Place ex_o1, Modify \<lparr>oid = 2, price = 7, amount = 0\<rparr>]) 1 = Some ex_o1"
    by (simp add: ex_defs map_defs)
  have b: "orders (vec_run vec_empty [Place ex_o1, Modify \<lparr>oid = 2, price = 7, amount = 0\<rparr>]) 1 = Some ex_o1"
    by (simp add: ex_defs vec_modify_def vec_place_eq vec_cancel_eq is_bid_def bid_comp_def)
  from a b
    modify_zero_is_cancel [of ex_mbook 1 7 ex_vbook
      "[Place ex_o1, Modify \<lparr>oid = 2, price = 7, amount = 0\<rparr>]" 1 ex_o1
      "[Place ex_o1, Modify \<lparr>oid = 2, price = 7, amount = 0\<rparr>]"]
  show ?thesis by simp
qed

section \<open>The ordered-map book loses orders placed at an occupied price\<close>

text \<open>
  C1 at the input \<open>place {1, 100, 5}; place {2, 100, 3}\<close> on the empty ordered-map book:
  both calls return true, order 2 is in the store, and the bid index holds the single entry
  \<open>100 \<mapsto> 1\<close>, so no index entry corresponds to the stored order 2.
\<close>

theorem map_store_and_index_diverge:
  "fst (map_place map_empty ex_o1) \<and>
   fst (map_place (snd (map_place map_empty ex_o1)) ex_o2) \<and>
   m_orders (map_run map_empty [Place ex_o1, Place ex_o2]) 2 = Some ex_o2 \<and>
   m_bids (map_run map_empty [Place ex_o1, Place ex_o2]) = [(100, 1)] \<and>
   m_asks (map_run map_empty [Place ex_o1, Place ex_o2]) = []"
  by (simp add: ex_defs map_defs)

section \<open>The best order\<close>

lemma highest_bid_None:
  "prices_covered os [] as \<Longrightarrow> highest_bid os None"
  by (fastforce simp: highest_bid_def prices_covered_def ran_def is_bid_def)

lemma lowest_ask_None:
  "prices_covered os bs [] \<Longrightarrow> store_ok os \<Longrightarrow> lowest_ask os None"
  by (fastforce simp: lowest_ask_def prices_covered_def ran_def is_bid_def)

lemma highest_bid_Some:
  assumes so: "index_sound os True bs" and cov: "prices_covered os bs as"
    and hd: "(k, i) \<in> set bs" and top: "\<forall>q \<in> fst ` set bs. q \<le> k"
  shows "highest_bid os (os i)"
proof -
  from so hd obtain b where b: "os i = Some b" "price b = k" "is_bid (amount b)"
    by (auto simp: index_sound_def)
  have "\<forall>v \<in> ran os. amount v > 0 \<longrightarrow> price v \<le> k"
  proof (intro ballI impI)
    fix v assume "v \<in> ran os" and "amount v > 0"
    then obtain j where "os j = Some v" "is_bid (amount v)" by (auto simp: ran_def is_bid_def)
    with cov have "price v \<in> fst ` set bs" by (auto simp: prices_covered_def)
    with top show "price v \<le> k" by auto
  qed
  with b show ?thesis by (auto simp: highest_bid_def ran_def is_bid_def)
qed

lemma lowest_ask_Some:
  assumes so: "index_sound os False as" and cov: "prices_covered os bs as" and st: "store_ok os"
    and hd: "(k, i) \<in> set as" and top: "\<forall>q \<in> fst ` set as. k \<le> q"
  shows "lowest_ask os (os i)"
proof -
  from so hd obtain b where b: "os i = Some b" "price b = k" "\<not> is_bid (amount b)"
    by (auto simp: index_sound_def)
  from st b(1) have "amount b \<noteq> 0" unfolding store_ok_def by blast
  with b(3) have neg: "amount b < 0" by (simp add: is_bid_def)
  have "\<forall>v \<in> ran os. amount v < 0 \<longrightarrow> k \<le> price v"
  proof (intro ballI impI)
    fix v assume "v \<in> ran os" and "amount v < 0"
    then obtain j where "os j = Some v" "\<not> is_bid (amount v)" by (auto simp: ran_def is_bid_def)
    with cov have "price v \<in> fst ` set as" by (auto simp: prices_covered_def)
    with top show "k \<le> price v" by auto
  qed
  with b neg show ?thesis by (auto simp: lowest_ask_def ran_def)
qed

lemma map_best_ok:
  assumes inv: "map_inv s" and cov: "prices_covered (m_orders s) (m_bids s) (m_asks s)"
  shows "highest_bid (m_orders s) (map_best_bid s) \<and> lowest_ask (m_orders s) (map_best_ask s)"
proof
  show "highest_bid (m_orders s) (map_best_bid s)"
  proof (cases "m_bids s")
    case Nil
    with cov show ?thesis
      using highest_bid_None [of "m_orders s" "m_asks s"]
      by (simp add: map_best_bid_def best_from_book_def)
  next
    case (Cons e rest)
    obtain k i where e: "e = (k, i)" by (cases e)
    from inv Cons e have "\<forall>q \<in> fst ` set (m_bids s). q \<le> k"
      by (auto simp: map_inv_def bid_comp_def)
    moreover from inv have "index_sound (m_orders s) True (m_bids s)" by (simp add: map_inv_def)
    moreover have "(k, i) \<in> set (m_bids s)" using Cons e by simp
    ultimately have "highest_bid (m_orders s) (m_orders s i)"
      using cov by (intro highest_bid_Some [where bs = "m_bids s" and k = k]) simp_all
    with Cons e show ?thesis by (simp add: map_best_bid_def best_from_book_def)
  qed
  show "lowest_ask (m_orders s) (map_best_ask s)"
  proof (cases "m_asks s")
    case Nil
    with cov inv show ?thesis
      using lowest_ask_None [of "m_orders s" "m_bids s"]
      by (simp add: map_best_ask_def best_from_book_def map_inv_def)
  next
    case (Cons e rest)
    obtain k i where e: "e = (k, i)" by (cases e)
    from inv Cons e have "\<forall>q \<in> fst ` set (m_asks s). k \<le> q"
      by (auto simp: map_inv_def ask_comp_def)
    moreover from inv have "index_sound (m_orders s) False (m_asks s)" "store_ok (m_orders s)"
      by (simp_all add: map_inv_def)
    moreover have "(k, i) \<in> set (m_asks s)" using Cons e by simp
    ultimately have "lowest_ask (m_orders s) (m_orders s i)"
      using cov by (intro lowest_ask_Some [where as = "m_asks s" and k = k]) simp_all
    with Cons e show ?thesis by (simp add: map_best_ask_def best_from_book_def)
  qed
qed

lemma store_indexed_covered: "store_indexed os bs as \<Longrightarrow> prices_covered os bs as"
  by (force simp: store_indexed_def prices_covered_def)

lemma vec_best_ok:
  assumes inv: "vec_inv s"
  shows "highest_bid (orders s) (vec_best_bid s) \<and> lowest_ask (orders s) (vec_best_ask s)"
proof
  from inv have cov: "prices_covered (orders s) (level_pairs (bids s)) (level_pairs (asks s))"
    by (simp add: vec_inv_def store_indexed_covered)
  show "highest_bid (orders s) (vec_best_bid s)"
  proof (cases "bids s")
    case Nil
    with cov show ?thesis
      using highest_bid_None [of "orders s" "level_pairs (asks s)"]
      by (simp add: vec_best_bid_def best_from_levels_def)
  next
    case (Cons l rest)
    with inv obtain i others where i: "ids l = i # others"
      by (cases "ids l") (auto simp: vec_inv_def levels_ok_def)
    have "\<forall>q \<in> fst ` set (level_pairs (bids s)). q \<le> level_price l"
    proof
      fix q assume "q \<in> fst ` set (level_pairs (bids s))"
      with prices_level_pairs [of "bids s"] have "q \<in> level_price ` set (bids s)" by auto
      with inv Cons show "q \<le> level_price l"
        by (auto simp: vec_inv_def levels_ok_def bid_comp_def)
    qed
    moreover from inv have "index_sound (orders s) True (level_pairs (bids s))"
      by (simp add: vec_inv_def)
    moreover have "(level_price l, i) \<in> set (level_pairs (bids s))" using Cons i by simp
    ultimately have "highest_bid (orders s) (orders s i)"
      using cov by (intro highest_bid_Some [where bs = "level_pairs (bids s)" and k = "level_price l"]) simp_all
    with Cons i show ?thesis by (simp add: vec_best_bid_def best_from_levels_def)
  qed
  show "lowest_ask (orders s) (vec_best_ask s)"
  proof (cases "asks s")
    case Nil
    with cov inv show ?thesis
      using lowest_ask_None [of "orders s" "level_pairs (bids s)"]
      by (simp add: vec_best_ask_def best_from_levels_def vec_inv_def)
  next
    case (Cons l rest)
    with inv obtain i others where i: "ids l = i # others"
      by (cases "ids l") (auto simp: vec_inv_def levels_ok_def)
    have "\<forall>q \<in> fst ` set (level_pairs (asks s)). level_price l \<le> q"
    proof
      fix q assume "q \<in> fst ` set (level_pairs (asks s))"
      with prices_level_pairs [of "asks s"] have "q \<in> level_price ` set (asks s)" by auto
      with inv Cons show "level_price l \<le> q"
        by (auto simp: vec_inv_def levels_ok_def ask_comp_def)
    qed
    moreover from inv have "index_sound (orders s) False (level_pairs (asks s))" "store_ok (orders s)"
      by (simp_all add: vec_inv_def)
    moreover have "(level_price l, i) \<in> set (level_pairs (asks s))" using Cons i by simp
    ultimately have "lowest_ask (orders s) (orders s i)"
      using cov by (intro lowest_ask_Some [where as = "level_pairs (asks s)" and k = "level_price l"]) simp_all
    with Cons i show ?thesis by (simp add: vec_best_ask_def best_from_levels_def)
  qed
qed

text \<open>While only \<open>place\<close> is called, every stored price is a key of its side's map.\<close>

lemma map_place_covered:
  assumes cov: "prices_covered (m_orders s) (m_bids s) (m_asks s)"
  shows "prices_covered (m_orders (snd (map_place s v))) (m_bids (snd (map_place s v)))
           (m_asks (snd (map_place s v)))"
proof (cases "fst (map_place s v)")
  case False
  with cov show ?thesis by (simp add: map_place_fail)
next
  case True
  then have nz: "amount v \<noteq> 0" and fresh: "m_orders s (oid v) = None"
    by (auto simp: map_place_def split: if_splits)
  show ?thesis
  proof (cases "is_bid (amount v)")
    case bid: True
    with nz fresh have r: "snd (map_place s v) =
        s\<lparr>m_orders := (m_orders s)(oid v \<mapsto> v), m_bids := emplace bid_comp (m_bids s) (price v) (oid v)\<rparr>"
      by (simp add: map_place_def add_to_book_def)
    from cov bid show ?thesis unfolding r
      by (auto simp: prices_covered_def keys_emplace)
  next
    case ask: False
    with nz fresh have r: "snd (map_place s v) =
        s\<lparr>m_orders := (m_orders s)(oid v \<mapsto> v), m_asks := emplace ask_comp (m_asks s) (price v) (oid v)\<rparr>"
      by (simp add: map_place_def add_to_book_def)
    from cov ask show ?thesis unfolding r
      by (auto simp: prices_covered_def keys_emplace)
  qed
qed

lemma map_places_covered:
  "prices_covered (m_orders s) (m_bids s) (m_asks s) \<Longrightarrow>
   prices_covered (m_orders (map_run s (map Place vs))) (m_bids (map_run s (map Place vs)))
     (m_asks (map_run s (map Place vs)))"
  unfolding map_run_def by (induction vs arbitrary: s) (simp_all add: map_place_covered)

text \<open>
  C2. In every state reached from the empty book by \<open>place\<close> calls only, in both books:
  \<open>best_bid\<close> returns a stored order with amount > 0 whose price is at least the price of
  every stored order with amount > 0, or none when there is no such order; \<open>best_ask\<close>
  returns a stored order with amount < 0 whose price is at most the price of every stored
  order with amount < 0, or none when there is no such order. (A \<open>place\<close> that returns
  false leaves the book as it was, so the states are those reached by the successful ones.)
\<close>

theorem best_is_extremal_after_places:
  "highest_bid (m_orders (map_run map_empty (map Place vs))) (map_best_bid (map_run map_empty (map Place vs))) \<and>
   lowest_ask (m_orders (map_run map_empty (map Place vs))) (map_best_ask (map_run map_empty (map Place vs))) \<and>
   highest_bid (orders (vec_run vec_empty (map Place vs))) (vec_best_bid (vec_run vec_empty (map Place vs))) \<and>
   lowest_ask (orders (vec_run vec_empty (map Place vs))) (vec_best_ask (vec_run vec_empty (map Place vs)))"
proof -
  have "prices_covered (m_orders map_empty) (m_bids map_empty) (m_asks map_empty)"
    by (simp add: prices_covered_def map_empty_def)
  then have "prices_covered (m_orders (map_run map_empty (map Place vs)))
      (m_bids (map_run map_empty (map Place vs))) (m_asks (map_run map_empty (map Place vs)))"
    by (rule map_places_covered)
  with map_reachable_inv [of "map Place vs"] vec_reachable_inv [of "map Place vs"]
  show ?thesis by (simp add: map_best_ok vec_best_ok)
qed

theorem best_is_extremal_after_places_witness:
  "map_best_bid (map_run map_empty (map Place [ex_o1, ex_o3, ex_a4, ex_a5])) = Some ex_o3 \<and>
   vec_best_bid (vec_run vec_empty (map Place [ex_o1, ex_o3, ex_a4, ex_a5])) = Some ex_o3 \<and>
   ex_o1 \<in> ran (m_orders (map_run map_empty (map Place [ex_o1, ex_o3, ex_a4, ex_a5]))) \<and>
   ex_o1 \<in> ran (orders (vec_run vec_empty (map Place [ex_o1, ex_o3, ex_a4, ex_a5]))) \<and>
   amount ex_o1 > 0 \<and> price ex_o1 \<le> price ex_o3 \<and>
   map_best_ask (map_run map_empty (map Place [ex_o1, ex_o3, ex_a4, ex_a5])) = Some ex_a5 \<and>
   vec_best_ask (vec_run vec_empty (map Place [ex_o1, ex_o3, ex_a4, ex_a5])) = Some ex_a5 \<and>
   ex_a4 \<in> ran (m_orders (map_run map_empty (map Place [ex_o1, ex_o3, ex_a4, ex_a5]))) \<and>
   ex_a4 \<in> ran (orders (vec_run vec_empty (map Place [ex_o1, ex_o3, ex_a4, ex_a5]))) \<and>
   amount ex_a4 < 0 \<and> price ex_a5 \<le> price ex_a4"
proof -
  let ?m = "map_run map_empty (map Place [ex_o1, ex_o3, ex_a4, ex_a5])"
  let ?v = "vec_run vec_empty (map Place [ex_o1, ex_o3, ex_a4, ex_a5])"
  note exs = ex_defs ex_o3_def ex_a4_def ex_a5_def
  have mb: "map_best_bid ?m = Some ex_o3" and ma: "map_best_ask ?m = Some ex_a5"
    by (simp_all add: exs map_defs)
  have vb: "vec_best_bid ?v = Some ex_o3" and va: "vec_best_ask ?v = Some ex_a5"
    by (simp_all add: exs vec_place_eq is_bid_def bid_comp_def ask_comp_def
        vec_best_bid_def vec_best_ask_def best_from_levels_def)
  have "m_orders ?m 1 = Some ex_o1" "m_orders ?m 4 = Some ex_a4"
    by (simp_all add: exs map_defs)
  then have mr: "ex_o1 \<in> ran (m_orders ?m)" "ex_a4 \<in> ran (m_orders ?m)"
    by (auto intro: ranI)
  have "orders ?v 1 = Some ex_o1" "orders ?v 4 = Some ex_a4"
    by (simp_all add: exs vec_place_eq is_bid_def bid_comp_def ask_comp_def)
  then have vr: "ex_o1 \<in> ran (orders ?v)" "ex_a4 \<in> ran (orders ?v)"
    by (auto intro: ranI)
  have am: "amount ex_o1 > 0" "amount ex_a4 < 0" by (simp_all add: exs)
  from best_is_extremal_after_places [of "[ex_o1, ex_o3, ex_a4, ex_a5]"] mb ma vb va mr vr am
  show ?thesis by (auto simp: highest_bid_def lowest_ask_def)
qed

section \<open>Place followed by cancel\<close>

lemma erase_emplace:
  "key_order cmp \<Longrightarrow> k \<notin> fst ` set b \<Longrightarrow> erase_in_range cmp (emplace cmp b k i) k i = Some b"
proof (induction b)
  case Nil
  then show ?case using key_order_cases(1) [of cmp k] by simp
next
  case (Cons e b)
  obtain k' v' where e: "e = (k', v')" by (cases e)
  with Cons.prems(2) have ne: "k' \<noteq> k" by auto
  show ?case
  proof (cases "cmp k' k")
    case True
    with Cons e show ?thesis by simp
  next
    case False
    with ne have "cmp k k'" using key_order_cases(3) [OF Cons.prems(1), of k' k] by auto
    with False e show ?thesis using key_order_cases(1) [OF Cons.prems(1), of k] by simp
  qed
qed

lemma best_from_book_fresh:
  "index_sound os side b \<Longrightarrow> os i = None \<Longrightarrow> best_from_book (os(i \<mapsto> v)) b = best_from_book os b"
proof (cases b)
  case Nil
  then show ?thesis by (simp add: best_from_book_def)
next
  case (Cons e rest)
  assume so: "index_sound os side b" and fr: "os i = None"
  obtain k j where e: "e = (k, j)" by (cases e)
  with so Cons have "os j \<noteq> None" by (auto simp: index_sound_def)
  with fr have "j \<noteq> i" by auto
  with Cons e show ?thesis by (simp add: best_from_book_def)
qed

lemma map_place_cancel_best:
  assumes inv: "map_inv s" and fresh: "m_orders s (oid v) = None"
  shows "map_best_bid (snd (map_cancel (snd (map_place s v)) (oid v))) = map_best_bid s \<and>
         map_best_ask (snd (map_cancel (snd (map_place s v)) (oid v))) = map_best_ask s"
proof (cases "amount v = 0")
  case True
  then have "snd (map_place s v) = s" by (simp add: map_place_def)
  moreover have "snd (map_cancel s (oid v)) = s" using fresh by (simp add: map_cancel_def)
  ultimately show ?thesis by simp
next
  case nz: False
  with fresh have ok: "fst (map_place s v)"
    by (simp add: map_place_def add_to_book_def Let_def)
  from inv have so: "sorted_wrt bid_comp (map fst (m_bids s))" "sorted_wrt ask_comp (map fst (m_asks s))"
    and ix: "index_sound (m_orders s) True (m_bids s)" "index_sound (m_orders s) False (m_asks s)"
    by (simp_all add: map_inv_def)
  show ?thesis
  proof (cases "price v \<in> fst ` set (if is_bid (amount v) then m_bids s else m_asks s)")
    case occ: True
    have st: "stuck (snd (map_place s v)) v" using inv ok occ by (rule place_occupied_stuck)
    then have "\<not> fst (map_cancel (snd (map_place s v)) (oid v))" by (rule stuck_cancel_fails)
    then have c: "snd (map_cancel (snd (map_place s v)) (oid v)) = snd (map_place s v)"
      by (rule map_cancel_fail)
    have "snd (map_place s v) = s\<lparr>m_orders := (m_orders s)(oid v \<mapsto> v)\<rparr>"
      using occ so nz fresh
      by (cases "is_bid (amount v)") (simp_all add: map_place_def add_to_book_def emplace_occupied)
    with c ix fresh show ?thesis
      by (simp add: map_best_bid_def map_best_ask_def best_from_book_fresh)
  next
    case free: False
    from fresh have idem: "(m_orders s)(oid v := None) = m_orders s" by (rule fun_upd_idem)
    have "snd (map_cancel (snd (map_place s v)) (oid v)) = s"
    proof (cases "is_bid (amount v)")
      case True
      with free have "erase_in_range bid_comp (emplace bid_comp (m_bids s) (price v) (oid v)) (price v) (oid v)
          = Some (m_bids s)" by (simp add: erase_emplace)
      with True nz fresh idem show ?thesis
        by (simp add: map_place_def add_to_book_def map_cancel_def remove_from_book_def)
    next
      case False
      with free have "erase_in_range ask_comp (emplace ask_comp (m_asks s) (price v) (oid v)) (price v) (oid v)
          = Some (m_asks s)" by (simp add: erase_emplace)
      with False nz fresh idem show ?thesis
        by (simp add: map_place_def add_to_book_def map_cancel_def remove_from_book_def)
    qed
    then show ?thesis by simp
  qed
qed

lemma vec_place_cancel:
  assumes inv: "vec_inv s" and fresh: "orders s (oid v) = None"
  shows "snd (vec_cancel (snd (vec_place s v)) (oid v)) = s"
proof (cases "amount v = 0")
  case True
  with fresh show ?thesis by (simp add: vec_place_eq vec_cancel_eq)
next
  case nz: False
  from inv fresh have nb: "oid v \<notin> set (concat (map ids (bids s)))"
    and na: "oid v \<notin> set (concat (map ids (asks s)))"
    using index_sound_absent [of "orders s" True "level_pairs (bids s)" "oid v"]
      index_sound_absent [of "orders s" False "level_pairs (asks s)" "oid v"]
    by (simp_all add: vec_inv_def ids_level_pairs)
  from inv have ne: "\<forall>l \<in> set (bids s). ids l \<noteq> []" "\<forall>l \<in> set (asks s). ids l \<noteq> []"
    by (simp_all add: vec_inv_def levels_ok_def)
  from fresh have idem: "(orders s)(oid v := None) = orders s" by (rule fun_upd_idem)
  show ?thesis
  proof (cases "is_bid (amount v)")
    case True
    have "del_level bid_comp (price v) (oid v) (ins_level bid_comp (price v) (oid v) (bids s)) = Some (bids s)"
      using ne(1) nb by (intro del_ins) simp_all
    with True nz fresh idem show ?thesis by (simp add: vec_place_eq vec_cancel_eq)
  next
    case False
    have "del_level ask_comp (price v) (oid v) (ins_level ask_comp (price v) (oid v) (asks s)) = Some (asks s)"
      using ne(2) na by (intro del_ins) simp_all
    with False nz fresh idem show ?thesis by (simp add: vec_place_eq vec_cancel_eq)
  qed
qed

text \<open>
  C8, as stated, at \<open>o = {1, 100, 5}\<close> in the book that already holds that order (reached
  by \<open>place {1, 100, 5}\<close>): the \<open>place\<close> is rejected, the \<open>cancel\<close> removes the resting
  order, and \<open>best_bid\<close> changes from the order to none, in both books.
\<close>

theorem place_cancel_duplicate_changes_best:
  "map_best_bid (snd (map_cancel (snd (map_place ex_mbook ex_o1)) (oid ex_o1))) \<noteq> map_best_bid ex_mbook \<and>
   vec_best_bid (snd (vec_cancel (snd (vec_place ex_vbook ex_o1)) (oid ex_o1))) \<noteq> vec_best_bid ex_vbook"
  by (simp add: ex_defs map_defs vec_place_eq vec_cancel_eq bid_comp_def
      vec_best_bid_def best_from_levels_def)

text \<open>
  C8, amended. In every reachable state of either book and for every order \<open>o\<close> whose id
  is not active in that state (in particular whenever \<open>place(o)\<close> returns true),
  \<open>place(o)\<close> followed by \<open>cancel(o.id)\<close> leaves \<open>best_bid\<close> and \<open>best_ask\<close> returning what
  they returned before the \<open>place\<close>.
\<close>

theorem place_cancel_restores_best:
  "(m_orders (map_run map_empty xs) (oid v) = None \<longrightarrow>
      map_best_bid (snd (map_cancel (snd (map_place (map_run map_empty xs) v)) (oid v)))
        = map_best_bid (map_run map_empty xs) \<and>
      map_best_ask (snd (map_cancel (snd (map_place (map_run map_empty xs) v)) (oid v)))
        = map_best_ask (map_run map_empty xs)) \<and>
   (orders (vec_run vec_empty ys) (oid v) = None \<longrightarrow>
      vec_best_bid (snd (vec_cancel (snd (vec_place (vec_run vec_empty ys) v)) (oid v)))
        = vec_best_bid (vec_run vec_empty ys) \<and>
      vec_best_ask (snd (vec_cancel (snd (vec_place (vec_run vec_empty ys) v)) (oid v)))
        = vec_best_ask (vec_run vec_empty ys))"
  using map_place_cancel_best [OF map_reachable_inv, of xs v]
    vec_place_cancel [OF vec_reachable_inv, of ys v]
  by simp

theorem place_cancel_restores_best_witness:
  "m_orders (map_run map_empty [Place ex_o1]) (oid ex_o2) = None \<and>
   fst (map_place (map_run map_empty [Place ex_o1]) ex_o2) \<and>
   map_best_bid (snd (map_cancel (snd (map_place (map_run map_empty [Place ex_o1]) ex_o2)) (oid ex_o2)))
     = map_best_bid (map_run map_empty [Place ex_o1]) \<and>
   orders (vec_run vec_empty [Place ex_o1]) (oid ex_o2) = None \<and>
   fst (vec_place (vec_run vec_empty [Place ex_o1]) ex_o2) \<and>
   vec_best_bid (snd (vec_cancel (snd (vec_place (vec_run vec_empty [Place ex_o1]) ex_o2)) (oid ex_o2)))
     = vec_best_bid (vec_run vec_empty [Place ex_o1])"
proof -
  have a: "m_orders (map_run map_empty [Place ex_o1]) (oid ex_o2) = None"
    and b: "fst (map_place (map_run map_empty [Place ex_o1]) ex_o2)"
    by (simp_all add: ex_defs map_defs)
  have c: "orders (vec_run vec_empty [Place ex_o1]) (oid ex_o2) = None"
    and d: "fst (vec_place (vec_run vec_empty [Place ex_o1]) ex_o2)"
    by (simp_all add: ex_defs vec_place_eq is_bid_def bid_comp_def)
  from a b c d place_cancel_restores_best [of "[Place ex_o1]" ex_o2 "[Place ex_o1]"]
  show ?thesis by blast
qed

section \<open>Modify at the same price and side\<close>

lemma requeue_eq:
  "requeue i p l = (if level_price l = p then l\<lparr>ids := swap_remove i (ids l) @ [i]\<rparr> else l)"
  by (simp add: requeue_def remove_id_from_level_eq swap_remove_absent)

lemma same_sign:
  "sgn (a::int) = sgn b \<Longrightarrow> b \<noteq> 0 \<Longrightarrow> a \<noteq> 0 \<and> is_bid a = is_bid b"
  by (auto simp: is_bid_def sgn_if split: if_splits)

lemma map_modify_same:
  assumes st: "store_ok (m_orders s)" and cur: "m_orders s (oid v) = Some cur"
    and sg: "sgn (amount v) = sgn (amount cur)" and pr: "price v = price cur"
  shows "map_modify s v = (True, s\<lparr>m_orders := (m_orders s)(oid v \<mapsto> v)\<rparr>)"
proof -
  from st cur have "amount cur \<noteq> 0" unfolding store_ok_def by blast
  with sg have "amount v \<noteq> 0" "is_bid (amount v) = is_bid (amount cur)"
    using same_sign by blast+
  with cur pr show ?thesis by (simp add: map_modify_def)
qed

lemma vec_modify_same:
  assumes inv: "vec_inv s" and cur: "orders s (oid v) = Some cur"
    and sg: "sgn (amount v) = sgn (amount cur)" and pr: "price v = price cur"
  shows "vec_modify s v =
    (True, s\<lparr>bids := (if amount v > 0 then map (requeue (oid v) (price v)) (bids s) else bids s),
             asks := (if amount v > 0 then asks s else map (requeue (oid v) (price v)) (asks s)),
             orders := (orders s)(oid v \<mapsto> v)\<rparr>)"
proof -
  from inv cur have "amount cur \<noteq> 0" unfolding vec_inv_def store_ok_def by blast
  with sg have nz: "amount v \<noteq> 0" and side: "is_bid (amount v) = is_bid (amount cur)"
    using same_sign by blast+
  have ok: "fst (vec_cancel s (oid v))" using inv cur by (rule vec_cancel_active)
  have m: "vec_modify s v = vec_place (snd (vec_cancel s (oid v))) v"
    using nz cur ok by (simp add: vec_modify_def Let_def case_prod_beta)
  have rq: "requeue (oid v) (price v) =
      (\<lambda>l. if level_price l = price v then l\<lparr>ids := swap_remove (oid v) (ids l) @ [oid v]\<rparr> else l)"
    by (rule ext) (rule requeue_eq)
  have upd: "((orders s)(oid v := None))(oid v \<mapsto> v) = (orders s)(oid v \<mapsto> v)" by simp
  show ?thesis
  proof (cases "is_bid (amount v)")
    case True
    with side ok cur obtain ls where d: "del_level bid_comp (price v) (oid v) (bids s) = Some ls"
      and c: "snd (vec_cancel s (oid v)) = s\<lparr>bids := ls, orders := (orders s)(oid v := None)\<rparr>"
      by (auto simp: vec_cancel_eq pr split: option.splits)
    from inv have "sorted_wrt bid_comp (map level_price (bids s))"
      by (simp add: vec_inv_def levels_ok_def)
    from ins_del [OF key_order_bid this d]
    have "ins_level bid_comp (price v) (oid v) ls = map (requeue (oid v) (price v)) (bids s)"
      by (simp add: rq)
    with True nz upd show ?thesis unfolding m c
      by (simp add: vec_place_eq is_bid_def)
  next
    case False
    with side ok cur obtain ls where d: "del_level ask_comp (price v) (oid v) (asks s) = Some ls"
      and c: "snd (vec_cancel s (oid v)) = s\<lparr>asks := ls, orders := (orders s)(oid v := None)\<rparr>"
      by (auto simp: vec_cancel_eq pr split: option.splits)
    from inv have "sorted_wrt ask_comp (map level_price (asks s))"
      by (simp add: vec_inv_def levels_ok_def)
    from ins_del [OF key_order_ask this d]
    have "ins_level ask_comp (price v) (oid v) ls = map (requeue (oid v) (price v)) (asks s)"
      by (simp add: rq)
    with False nz upd show ?thesis unfolding m c
      by (simp add: vec_place_eq is_bid_def)
  qed
qed

text \<open>
  C3, as stated, in the sorted-bucket book holding \<open>{1, 100, 5}\<close> and \<open>{2, 100, 3}\<close>
  (placed in that order): \<open>modify {1, 100, 6}\<close> keeps order 1's side and price and
  returns true, yet the bid level \<open>[1, 2]\<close> becomes \<open>[2, 1]\<close> and \<open>best_bid\<close> changes
  from order 1 to order 2.
\<close>

theorem vec_modify_same_price_reorders:
  "orders ex_vbook2 (oid ex_m1) = Some ex_o1 \<and> sgn (amount ex_m1) = sgn (amount ex_o1) \<and>
   price ex_m1 = price ex_o1 \<and> fst (vec_modify ex_vbook2 ex_m1) \<and>
   bids ex_vbook2 = [\<lparr>level_price = 100, ids = [1, 2]\<rparr>] \<and>
   bids (snd (vec_modify ex_vbook2 ex_m1)) = [\<lparr>level_price = 100, ids = [2, 1]\<rparr>] \<and>
   bids (snd (vec_modify ex_vbook2 ex_m1)) \<noteq> bids ex_vbook2 \<and>
   vec_best_bid ex_vbook2 = Some ex_o1 \<and>
   vec_best_bid (snd (vec_modify ex_vbook2 ex_m1)) = Some ex_o2 \<and>
   vec_best_bid (snd (vec_modify ex_vbook2 ex_m1)) \<noteq> vec_best_bid ex_vbook2"
  by (simp add: ex_vbook2_def ex_m1_def ex_defs vec_modify_def vec_place_eq vec_cancel_eq
      is_bid_def bid_comp_def vec_best_bid_def best_from_levels_def)

text \<open>
  C3, amended. Let \<open>modify\<close> be called in a reachable state with an order of the same
  side (sign of amount) and price as the order stored under its id. In the ordered-map
  book it returns true and changes only the stored value for that id; both price indexes
  are exactly as before. In the sorted-bucket book it returns true, changes only the
  stored value for that id in the store, and leaves the other side's levels and every
  other level of its own side as they were; its own level keeps its price and its place
  in the sequence, but its id sequence becomes what \<open>remove_id_from_level\<close> leaves with
  the id appended at the back (\<open>requeue\<close>).
\<close>

theorem modify_same_price_and_side:
  "(m_orders (map_run map_empty xs) (oid v) = Some cur \<and> sgn (amount v) = sgn (amount cur) \<and>
    price v = price cur \<longrightarrow>
      map_modify (map_run map_empty xs) v =
        (True, (map_run map_empty xs)\<lparr>m_orders := (m_orders (map_run map_empty xs))(oid v \<mapsto> v)\<rparr>)) \<and>
   (orders (vec_run vec_empty ys) (oid v) = Some cur' \<and> sgn (amount v) = sgn (amount cur') \<and>
    price v = price cur' \<longrightarrow>
      vec_modify (vec_run vec_empty ys) v =
        (True, (vec_run vec_empty ys)
           \<lparr>bids := (if amount v > 0 then map (requeue (oid v) (price v)) (bids (vec_run vec_empty ys))
                     else bids (vec_run vec_empty ys)),
            asks := (if amount v > 0 then asks (vec_run vec_empty ys)
                     else map (requeue (oid v) (price v)) (asks (vec_run vec_empty ys))),
            orders := (orders (vec_run vec_empty ys))(oid v \<mapsto> v)\<rparr>))"
proof -
  have "store_ok (m_orders (map_run map_empty xs))"
    using map_reachable_inv [of xs] by (simp add: map_inv_def)
  then show ?thesis
    using map_modify_same [of "map_run map_empty xs" v cur]
      vec_modify_same [OF vec_reachable_inv, of ys v cur']
    by blast
qed

theorem modify_same_price_and_side_witness:
  "m_orders (map_run map_empty [Place ex_o1, Place ex_o2]) (oid ex_m1) = Some ex_o1 \<and>
   orders (vec_run vec_empty [Place ex_o1, Place ex_o2]) (oid ex_m1) = Some ex_o1 \<and>
   sgn (amount ex_m1) = sgn (amount ex_o1) \<and> price ex_m1 = price ex_o1 \<and>
   fst (map_modify (map_run map_empty [Place ex_o1, Place ex_o2]) ex_m1) \<and>
   m_bids (snd (map_modify (map_run map_empty [Place ex_o1, Place ex_o2]) ex_m1)) =
     m_bids (map_run map_empty [Place ex_o1, Place ex_o2]) \<and>
   fst (vec_modify (vec_run vec_empty [Place ex_o1, Place ex_o2]) ex_m1) \<and>
   bids (snd (vec_modify (vec_run vec_empty [Place ex_o1, Place ex_o2]) ex_m1)) =
     map (requeue 1 100) (bids (vec_run vec_empty [Place ex_o1, Place ex_o2]))"
proof -
  have a: "m_orders (map_run map_empty [Place ex_o1, Place ex_o2]) (oid ex_m1) = Some ex_o1"
    by (simp add: ex_m1_def ex_defs map_defs)
  have b: "orders (vec_run vec_empty [Place ex_o1, Place ex_o2]) (oid ex_m1) = Some ex_o1"
    by (simp add: ex_m1_def ex_defs vec_place_eq is_bid_def bid_comp_def)
  have c: "sgn (amount ex_m1) = sgn (amount ex_o1)" "price ex_m1 = price ex_o1"
    "amount ex_m1 > 0" "oid ex_m1 = 1" "price ex_m1 = 100"
    by (simp_all add: ex_m1_def ex_defs)
  from a b c modify_same_price_and_side
    [of "[Place ex_o1, Place ex_o2]" ex_m1 ex_o1 "[Place ex_o1, Place ex_o2]" ex_o1]
  show ?thesis by simp
qed

end
